theory Spec2Isabelle
  imports
    Complex_Main
    "HOL-Library.Char_ord"
    "HOL-Library.List_Lexorder"
    "HOL-Library.Product_Lexorder"
    "HOL-Library.Multiset"
    "HOL-Library.Sublist"
begin

chapter \<open>pydu: a live disk-usage scanner and its browser\<close>

text \<open>
  A shallow embedding of \<^verbatim>\<open>src/Pydu/pydu.py\<close>: the size formatter \<^verbatim>\<open>human\<close>, the
  ancestor chain \<^verbatim>\<open>ancestors\<close>, the shared \<^verbatim>\<open>State\<close>, the two passes of the scanner
  (\<^verbatim>\<open>pre_count\<close>, \<^verbatim>\<open>scan_live\<close>) and the key handling of the \<^verbatim>\<open>Browser\<close>.
  Paths are strings, as in the source, and the functions of \<^verbatim>\<open>os.path\<close> the source
  calls are modelled after \<^verbatim>\<open>posixpath\<close>.
\<close>

section \<open>Paths\<close>

definition sep :: char where
  "sep = CHR ''/''"

text \<open>\<^verbatim>\<open>posixpath.join(a, b)\<close> with one component \<open>b\<close>.\<close>

definition join_path :: "string \<Rightarrow> string \<Rightarrow> string" where
  "join_path a b =
     (if b \<noteq> [] \<and> hd b = sep then b
      else if a = [] \<or> last a = sep then a @ b
      else a @ [sep] @ b)"

text \<open>
  \<^verbatim>\<open>posixpath.dirname\<close>: the head is everything up to and including the last slash;
  trailing slashes are stripped from it unless it consists of slashes only.
\<close>

definition path_head :: "string \<Rightarrow> string" where
  "path_head p = rev (dropWhile (\<lambda>c. c \<noteq> sep) (rev p))"

definition rstrip_sep :: "string \<Rightarrow> string" where
  "rstrip_sep h = rev (dropWhile (\<lambda>c. c = sep) (rev h))"

definition dirname :: "string \<Rightarrow> string" where
  "dirname p =
     (let head = path_head p
      in if head \<noteq> [] \<and> head \<noteq> replicate (length head) sep then rstrip_sep head else head)"

text \<open>\<^verbatim>\<open>posixpath.basename\<close>: everything after the last slash.\<close>

definition basename :: "string \<Rightarrow> string" where
  "basename p = rev (takeWhile (\<lambda>c. c \<noteq> sep) (rev p))"

text \<open>\<^verbatim>\<open>str.split('/')\<close> and \<^verbatim>\<open>'/'.join\<close>.\<close>

fun split_sep :: "string \<Rightarrow> string list" where
  "split_sep [] = [[]]"
| "split_sep (c # cs) =
     (if c = sep then [] # split_sep cs
      else (case split_sep cs of [] \<Rightarrow> [[c]] | w # ws \<Rightarrow> (c # w) # ws))"

fun join_sep :: "string list \<Rightarrow> string" where
  "join_sep [] = []"
| "join_sep [w] = w"
| "join_sep (w # ws) = w @ [sep] @ join_sep ws"

text \<open>
  \<^verbatim>\<open>posixpath.normpath\<close>. \<open>initial_slashes\<close> is 2 for a path that starts with exactly
  two slashes, 1 for any other absolute path, and 0 for a relative one.
\<close>

definition initial_slashes :: "string \<Rightarrow> nat" where
  "initial_slashes p =
     (if take 1 p = [sep] then
        (if take 2 p = [sep, sep] \<and> take 3 p \<noteq> [sep, sep, sep] then 2 else 1)
      else 0)"

definition norm_step :: "nat \<Rightarrow> string list \<Rightarrow> string \<Rightarrow> string list" where
  "norm_step ini new_comps c =
     (if c = [] \<or> c = ''.'' then new_comps
      else if c \<noteq> ''..'' \<or> (ini = 0 \<and> new_comps = [])
              \<or> (new_comps \<noteq> [] \<and> last new_comps = ''..'')
        then new_comps @ [c]
      else if new_comps \<noteq> [] then butlast new_comps
      else new_comps)"

definition normpath :: "string \<Rightarrow> string" where
  "normpath p =
     (if p = [] then ''.''
      else let ini = initial_slashes p;
               comps = foldl (norm_step ini) [] (split_sep p);
               path = replicate ini sep @ join_sep comps
           in if path = [] then ''.'' else path)"

definition isabs :: "string \<Rightarrow> bool" where
  "isabs p = (take 1 p = [sep])"

text \<open>
  \<^verbatim>\<open>os.path.abspath\<close> on an absolute path is \<^verbatim>\<open>normpath\<close>. A relative path would be
  joined to the working directory of the process first; every path the program passes
  to \<^verbatim>\<open>abspath\<close> after start-up is already absolute, and the theorems below ask for it.
\<close>

definition abspath :: "string \<Rightarrow> string" where
  "abspath p = normpath p"

text \<open>\<^verbatim>\<open>str.lower\<close>, on ASCII letters.\<close>

definition lower_char :: "char \<Rightarrow> char" where
  "lower_char c = (if CHR ''A'' \<le> c \<and> c \<le> CHR ''Z'' then char_of (of_char c + (32::nat)) else c)"

definition lower :: "string \<Rightarrow> string" where
  "lower s = map lower_char s"

section \<open>The size formatter\<close>

text \<open>
  The values \<^verbatim>\<open>human\<close> can be called with. \<^verbatim>\<open>float()\<close> raises \<^verbatim>\<open>TypeError\<close> on
  \<^verbatim>\<open>None\<close> and \<^verbatim>\<open>OverflowError\<close> on an integer beyond the range of a double; what it
  does on a string is the interpreter's number parser, which is a parameter \<open>strtod\<close>
  of the model (\<open>None\<close> where it raises \<^verbatim>\<open>ValueError\<close>).
\<close>

datatype pyval = PInt int | PStr string | PNone

datatype pyerror = TypeError | ValueError | OverflowError

text \<open>
  A double, by its exact value. The program only compares with 1024, divides by 1024
  (exact for a double that is at least 1024) and prints with one decimal, so the
  exact value decides every step.
\<close>

datatype pyfloat = Fin rat | NegZero | PosInf | NegInf | NaN

fun bit_len :: "nat \<Rightarrow> nat" where
  "bit_len n = (if n = 0 then 0 else Suc (bit_len (n div 2)))"

text \<open>Rounding a natural number to 53 significant bits, ties to even.\<close>

definition round53 :: "nat \<Rightarrow> nat" where
  "round53 n =
     (if n < 2 ^ 53 then n
      else let e = bit_len n - 53;
               q = n div 2 ^ e;
               r = n mod 2 ^ e;
               h = 2 ^ (e - 1)
           in (if h < r \<or> (r = h \<and> odd q) then q + 1 else q) * 2 ^ e)"

definition float_of_int :: "int \<Rightarrow> pyerror + pyfloat" where
  "float_of_int n =
     (let m = round53 (nat \<bar>n\<bar>)
      in if 2 ^ 1024 \<le> m then Inl OverflowError
         else Inr (Fin (if n < 0 then - of_nat m else of_nat m)))"

definition py_float :: "(string \<Rightarrow> pyfloat option) \<Rightarrow> pyval \<Rightarrow> pyerror + pyfloat" where
  "py_float strtod v =
     (case v of
        PInt n \<Rightarrow> float_of_int n
      | PNone \<Rightarrow> Inl TypeError
      | PStr s \<Rightarrow> (case strtod s of None \<Rightarrow> Inl ValueError | Some x \<Rightarrow> Inr x))"

text \<open>\<^verbatim>\<open>n < 1024\<close> and \<^verbatim>\<open>n /= 1024.0\<close> on doubles.\<close>

fun lt1024 :: "pyfloat \<Rightarrow> bool" where
  "lt1024 (Fin r) = (r < 1024)"
| "lt1024 NegZero = True"
| "lt1024 NegInf = True"
| "lt1024 PosInf = False"
| "lt1024 NaN = False"

fun div1024 :: "pyfloat \<Rightarrow> pyfloat" where
  "div1024 (Fin r) = Fin (r / 1024)"
| "div1024 x = x"

text \<open>Decimal digits of a natural number.\<close>

definition digit_char :: "nat \<Rightarrow> char" where
  "digit_char d = ''0123456789'' ! d"

fun digits10 :: "nat \<Rightarrow> string" where
  "digits10 n = (if n < 10 then [digit_char n] else digits10 (n div 10) @ [digit_char (n mod 10)])"

text \<open>
  The format \<^verbatim>\<open>{n:.1f}\<close>: the decimal with one digit after the point that is nearest to
  the exact value, a tie going to the even digit.
\<close>

definition round_tenths :: "rat \<Rightarrow> nat" where
  "round_tenths r =
     (let t = r * 10; f = \<lfloor>t\<rfloor>; fr = t - of_int f
      in nat (if 1 / 2 < fr \<or> (fr = 1 / 2 \<and> odd f) then f + 1 else f))"

definition fmt_tenths :: "nat \<Rightarrow> string" where
  "fmt_tenths k = digits10 (k div 10) @ ''.'' @ digits10 (k mod 10)"

fun fmt1 :: "pyfloat \<Rightarrow> string" where
  "fmt1 (Fin r) = (if r < 0 then ''-'' else '''') @ fmt_tenths (round_tenths \<bar>r\<bar>)"
| "fmt1 NegZero = ''-0.0''"
| "fmt1 PosInf = ''inf''"
| "fmt1 NegInf = ''-inf''"
| "fmt1 NaN = ''nan''"

text \<open>
  The loop of \<^verbatim>\<open>human\<close> over the units: the first unit at which the value is below
  1024 formats it; when the units run out the value is formatted with \<^verbatim>\<open>E\<close>.
\<close>

fun human_loop :: "pyfloat \<Rightarrow> string \<Rightarrow> string" where
  "human_loop n [] = fmt1 n @ ''E''"
| "human_loop n (unit # units) =
     (if lt1024 n then fmt1 n @ [unit] else human_loop (div1024 n) units)"

definition human :: "(string \<Rightarrow> pyfloat option) \<Rightarrow> pyval \<Rightarrow> string" where
  "human strtod v =
     (case py_float strtod v of
        Inl e \<Rightarrow> ''?''
      | Inr n \<Rightarrow> human_loop n ''BKMGTP'')"

section \<open>The shared state\<close>

text \<open>
  The fields of \<^verbatim>\<open>State\<close>. \<open>root_path\<close> is \<^verbatim>\<open>root\<close> and \<open>size_map\<close> is \<^verbatim>\<open>size\<close>. The two
  \<^verbatim>\<open>defaultdict\<close>s and the plain dictionary are partial maps; the lock is not a field:
  each block the source runs under \<^verbatim>\<open>with st.lock\<close> is one function below, applied as
  a whole. \<^verbatim>\<open>start_time\<close> is left out.
\<close>

record state =
  root_path :: string
  size_map :: "string \<rightharpoonup> int"
  exists :: "string set"
  children :: "string \<rightharpoonup> string list"
  is_dir :: "string \<rightharpoonup> bool"
  total_files :: int
  seen_files :: int
  total_dirs :: int
  seen_dirs :: int
  scanning :: bool
  errors :: int

definition State_init :: "string \<Rightarrow> state" where
  "State_init r =
     \<lparr>root_path = abspath r, size_map = Map.empty, exists = {}, children = Map.empty,
      is_dir = Map.empty, total_files = 1, seen_files = 0, total_dirs = 1, seen_dirs = 0,
      scanning = True, errors = 0\<rparr>"

text \<open>Reading the dictionaries: \<^verbatim>\<open>size[p]\<close> and \<^verbatim>\<open>size.get(p, 0)\<close>, \<^verbatim>\<open>children[d]\<close> and
  \<^verbatim>\<open>children.get(d, [])\<close>, \<^verbatim>\<open>is_dir.get(p, False)\<close>.\<close>

definition size_of :: "state \<Rightarrow> string \<Rightarrow> int" where
  "size_of st p = (case size_map st p of None \<Rightarrow> 0 | Some v \<Rightarrow> v)"

definition children_of :: "state \<Rightarrow> string \<Rightarrow> string list" where
  "children_of st d = (case children st d of None \<Rightarrow> [] | Some cs \<Rightarrow> cs)"

definition is_dir_get :: "state \<Rightarrow> string \<Rightarrow> bool" where
  "is_dir_get st p = (case is_dir st p of None \<Rightarrow> False | Some b \<Rightarrow> b)"

text \<open>\<^verbatim>\<open>children.setdefault(d, [])\<close> and \<^verbatim>\<open>children[d].append(c)\<close>.\<close>

definition setdefault_children :: "string \<Rightarrow> state \<Rightarrow> state" where
  "setdefault_children d st =
     (case children st d of
        None \<Rightarrow> st\<lparr>children := (children st)(d \<mapsto> [])\<rparr>
      | Some cs \<Rightarrow> st)"

definition append_child :: "string \<Rightarrow> string \<Rightarrow> state \<Rightarrow> state" where
  "append_child d c st = st\<lparr>children := (children st)(d \<mapsto> children_of st d @ [c])\<rparr>"

section \<open>The ancestor chain\<close>

lemma path_head_prefix: "prefix (path_head p) p"
proof -
  have "suffix (dropWhile (\<lambda>c. c \<noteq> sep) (rev p)) (rev p)"
    by (rule suffix_dropWhile)
  then show ?thesis
    unfolding path_head_def by (metis rev_rev_ident suffix_to_prefix)
qed

lemma rstrip_sep_prefix: "prefix (rstrip_sep h) h"
proof -
  have "suffix (dropWhile (\<lambda>c. c = sep) (rev h)) (rev h)"
    by (rule suffix_dropWhile)
  then show ?thesis
    unfolding rstrip_sep_def by (metis rev_rev_ident suffix_to_prefix)
qed

lemma dirname_prefix: "prefix (dirname p) p"
  unfolding dirname_def Let_def
  using path_head_prefix [of p] rstrip_sep_prefix [of "path_head p"]
  by (auto intro: prefix_order.trans)

lemma prefix_neq_shorter: "prefix xs ys \<Longrightarrow> ys \<noteq> xs \<Longrightarrow> length xs < length ys"
  by (cases "length xs = length ys") (auto simp: prefix_def dest: le_neq_implies_less)

lemma dirname_shorter: "p \<noteq> dirname p \<Longrightarrow> length (dirname p) < length p"
  by (rule prefix_neq_shorter [OF dirname_prefix])

text \<open>
  The loop of \<^verbatim>\<open>ancestors\<close>: \<open>p\<close> is appended, and the loop goes on with the parent
  unless \<open>p\<close> is the stop or its own parent.
\<close>

function ancestors_loop :: "string \<Rightarrow> string \<Rightarrow> string list" where
  "ancestors_loop p stop_at =
     (if p = stop_at \<or> p = dirname p then [p]
      else p # ancestors_loop (dirname p) stop_at)"
  by pat_completeness auto
termination
  by (relation "measure (\<lambda>(p, stop_at). length p)") (auto intro: dirname_shorter)

declare ancestors_loop.simps [simp del]

definition ancestors :: "string \<Rightarrow> string \<Rightarrow> string list" where
  "ancestors path stop_at = ancestors_loop path (abspath stop_at)"

section \<open>The filesystem\<close>

text \<open>
  What \<^verbatim>\<open>os.walk\<close> and \<^verbatim>\<open>os.path.getsize\<close> see. A directory lists named entries in the
  order of \<^verbatim>\<open>scandir\<close>. \<open>Sealed\<close> is an entry that \<^verbatim>\<open>os.walk\<close> puts among the
  directory names of its parent but yields no tuple for: a symbolic link to a
  directory (\<^verbatim>\<open>followlinks=False\<close>) or a directory that cannot be listed. The size of
  a file is what \<open>getsize :: string \<Rightarrow> int option\<close> answers for its path, \<open>None\<close> where
  \<^verbatim>\<open>os.path.getsize\<close> raises.
\<close>

datatype fsnode = File | Dir "(string \<times> fsnode) list" | Sealed

definition is_file :: "string \<times> fsnode \<Rightarrow> bool" where
  "is_file e = (snd e = File)"

definition dirnames :: "(string \<times> fsnode) list \<Rightarrow> string list" where
  "dirnames es = map fst (filter (\<lambda>e. \<not> is_file e) es)"

definition filenames :: "(string \<times> fsnode) list \<Rightarrow> string list" where
  "filenames es = map fst (filter is_file es)"

text \<open>
  \<^verbatim>\<open>os.walk(top, topdown=True, followlinks=False)\<close>: the tuple of a directory, then the
  walks of its subdirectories in the order of their names. Nothing is yielded for a
  top that is not a listable directory.
\<close>

fun os_walk :: "string \<Rightarrow> fsnode \<Rightarrow> (string \<times> string list \<times> string list) list" where
  "os_walk tp (Dir es) =
     (tp, dirnames es, filenames es)
       # concat (map (\<lambda>(n, c). os_walk (join_path tp n) c) (filter (\<lambda>e. \<not> is_file e) es))"
| "os_walk tp File = []"
| "os_walk tp Sealed = []"

text \<open>A name in a directory is not empty and has no slash; the names of one directory
  are distinct.\<close>

definition valid_name :: "string \<Rightarrow> bool" where
  "valid_name n = (n \<noteq> [] \<and> sep \<notin> set n)"

fun wf_fs :: "fsnode \<Rightarrow> bool" where
  "wf_fs (Dir es) = (distinct (map fst es) \<and> (\<forall>e \<in> set es. valid_name (fst e) \<and> wf_fs (snd e)))"
| "wf_fs File = True"
| "wf_fs Sealed = True"

section \<open>The scanner\<close>

text \<open>
  The blocks the scanner runs under the lock, in the order of the source, one function
  each.
\<close>

definition pre_enter :: "string \<Rightarrow> state \<Rightarrow> state" where
  "pre_enter dirpath st =
     (let st1 = st\<lparr>exists := insert dirpath (exists st)\<rparr>;
          st2 = st1\<lparr>is_dir := (is_dir st1)(dirpath \<mapsto> True)\<rparr>;
          st3 = setdefault_children dirpath st2
      in st3\<lparr>total_dirs := total_dirs st3 + 1\<rparr>)"

definition pre_child :: "string \<Rightarrow> string \<Rightarrow> state \<Rightarrow> state" where
  "pre_child dirpath d st =
     (let dp = join_path dirpath d;
          st1 = st\<lparr>exists := insert dp (exists st)\<rparr>;
          st2 = st1\<lparr>is_dir := (is_dir st1)(dp \<mapsto> True)\<rparr>
      in append_child dirpath dp st2)"

definition pre_files :: "nat \<Rightarrow> state \<Rightarrow> state" where
  "pre_files n st = st\<lparr>total_files := total_files st + int n\<rparr>"

definition live_dir_child :: "string \<Rightarrow> string \<Rightarrow> state \<Rightarrow> state" where
  "live_dir_child dirpath d st =
     (let dp = join_path dirpath d
      in if dp \<notin> set (children_of st dirpath) then append_child dirpath dp st else st)"

definition live_enter :: "string \<Rightarrow> string list \<Rightarrow> state \<Rightarrow> state" where
  "live_enter dirpath dns st =
     (let st1 = st\<lparr>seen_dirs := seen_dirs st + 1\<rparr>;
          st2 = st1\<lparr>exists := insert dirpath (exists st1)\<rparr>;
          st3 = st2\<lparr>is_dir := (is_dir st2)(dirpath \<mapsto> True)\<rparr>;
          st4 = setdefault_children dirpath st3
      in fold (live_dir_child dirpath) dns st4)"

definition live_file :: "string \<Rightarrow> string \<Rightarrow> state \<Rightarrow> state" where
  "live_file dirpath fname st =
     (let fpath = join_path dirpath fname;
          st1 = st\<lparr>exists := insert fpath (exists st)\<rparr>;
          st2 = st1\<lparr>is_dir := (is_dir st1)(fpath \<mapsto> False)\<rparr>
      in append_child dirpath fpath st2)"

text \<open>
  \<^verbatim>\<open>file_size\<close>, run by a worker: the pair it returns, and the block that counts an
  error when \<^verbatim>\<open>getsize\<close> raises.
\<close>

definition file_size :: "(string \<Rightarrow> int option) \<Rightarrow> string \<Rightarrow> string \<times> int" where
  "file_size getsize path = (case getsize path of Some n \<Rightarrow> (path, n) | None \<Rightarrow> (path, 0))"

definition size_error :: "state \<Rightarrow> state" where
  "size_error st = st\<lparr>errors := errors st + 1\<rparr>"

text \<open>The aggregation block: \<^verbatim>\<open>size[anc] += sz\<close> for one ancestor, and the whole block.\<close>

definition add_size :: "int \<Rightarrow> string \<Rightarrow> state \<Rightarrow> state" where
  "add_size sz anc st = st\<lparr>size_map := (size_map st)(anc \<mapsto> size_of st anc + sz)\<rparr>"

definition bubble :: "string \<Rightarrow> int \<Rightarrow> state \<Rightarrow> state" where
  "bubble path sz st =
     (let st1 = st\<lparr>seen_files := seen_files st + 1\<rparr>;
          st2 = st1\<lparr>size_map := (size_map st1)(path \<mapsto> sz)\<rparr>
      in fold (add_size sz) (ancestors (dirname path) (root_path st2)) st2)"

definition finish :: "state \<Rightarrow> state" where
  "finish st = st\<lparr>scanning := False\<rparr>"

text \<open>
  A run of the scanner is the list of the blocks it executes. Another thread sees the
  state between two blocks, never inside one.
\<close>

datatype step =
    PreEnter string
  | PreChild string string
  | PreFiles nat
  | LiveEnter string "string list"
  | LiveFile string string
  | SizeError
  | Bubble string int
  | Finish

fun exec :: "step \<Rightarrow> state \<Rightarrow> state" where
  "exec (PreEnter dirpath) st = pre_enter dirpath st"
| "exec (PreChild dirpath d) st = pre_child dirpath d st"
| "exec (PreFiles n) st = pre_files n st"
| "exec (LiveEnter dirpath dns) st = live_enter dirpath dns st"
| "exec (LiveFile dirpath fname) st = live_file dirpath fname st"
| "exec SizeError st = size_error st"
| "exec (Bubble path sz) st = bubble path sz st"
| "exec Finish st = finish st"

definition run :: "step list \<Rightarrow> state \<Rightarrow> state" where
  "run steps st = fold exec steps st"

text \<open>\<^verbatim>\<open>pre_count\<close>: for each tuple of the walk, the directory, its directory names one by
  one, and the number of its file names.\<close>

definition pre_count_steps :: "string \<Rightarrow> fsnode \<Rightarrow> step list" where
  "pre_count_steps r fs =
     concat (map (\<lambda>(dirpath, dns, fns).
                    PreEnter dirpath # map (PreChild dirpath) dns @ [PreFiles (length fns)])
                 (os_walk r fs))"

definition pre_count :: "string \<Rightarrow> fsnode \<Rightarrow> state \<Rightarrow> state" where
  "pre_count r fs st = run (pre_count_steps r fs) st"

text \<open>
  The live pass of \<^verbatim>\<open>scan_live\<close>: for each tuple of the second walk, the block of the
  directory and one block for each file, which is then submitted to the pool. The
  worker is taken to run the task at once; what it does to the state is to count an
  error, and that commutes with every other block.
\<close>

definition live_file_steps :: "(string \<Rightarrow> int option) \<Rightarrow> string \<Rightarrow> string \<Rightarrow> step list" where
  "live_file_steps getsize dirpath fname =
     LiveFile dirpath fname
       # (case getsize (join_path dirpath fname) of None \<Rightarrow> [SizeError] | Some n \<Rightarrow> [])"

definition live_steps :: "(string \<Rightarrow> int option) \<Rightarrow> string \<Rightarrow> fsnode \<Rightarrow> step list" where
  "live_steps getsize r fs =
     concat (map (\<lambda>(dirpath, dns, fns).
                    LiveEnter dirpath dns # concat (map (live_file_steps getsize dirpath) fns))
                 (os_walk r fs))"

text \<open>The results of the submitted tasks, in the order of submission.\<close>

definition submitted :: "(string \<Rightarrow> int option) \<Rightarrow> string \<Rightarrow> fsnode \<Rightarrow> (string \<times> int) list" where
  "submitted getsize r fs =
     concat (map (\<lambda>(dirpath, dns, fns). map (\<lambda>fname. file_size getsize (join_path dirpath fname)) fns)
                 (os_walk r fs))"

text \<open>
  \<^verbatim>\<open>as_completed\<close> hands the results over in the order the workers finish, which the
  program does not control: \<open>sched\<close> is that order, any rearrangement of the submitted
  tasks.
\<close>

definition drain_steps ::
  "(string \<Rightarrow> int option) \<Rightarrow> ((string \<times> int) list \<Rightarrow> (string \<times> int) list) \<Rightarrow> string \<Rightarrow> fsnode \<Rightarrow> step list" where
  "drain_steps getsize sched r fs = map (\<lambda>(path, sz). Bubble path sz) (sched (submitted getsize r fs))"

definition scan_steps ::
  "(string \<Rightarrow> int option) \<Rightarrow> ((string \<times> int) list \<Rightarrow> (string \<times> int) list) \<Rightarrow> string \<Rightarrow> fsnode \<Rightarrow> step list" where
  "scan_steps getsize sched r fs =
     pre_count_steps r fs @ live_steps getsize r fs @ drain_steps getsize sched r fs @ [Finish]"


section \<open>The browser\<close>

record browser =
  cwd :: string
  pos :: int
  sort_mode :: int
  spinner_idx :: int

definition Browser_init :: "state \<Rightarrow> browser" where
  "Browser_init st = \<lparr>cwd = root_path st, pos = 0, sort_mode = 0, spinner_idx = 0\<rparr>"

text \<open>
  \<^verbatim>\<open>_sorted_children\<close>: the children of the path that are in \<^verbatim>\<open>exists\<close>, the size each
  one is sorted by (a directory without a size of its own takes the size of the
  path), and \<^verbatim>\<open>list.sort\<close>, a stable sort, by the key of the mode.
\<close>

definition sort_size :: "state \<Rightarrow> string \<Rightarrow> string \<Rightarrow> int" where
  "sort_size st path k =
     (case size_map st k of
        Some v \<Rightarrow> v
      | None \<Rightarrow> (if is_dir_get st k then (case size_map st path of Some v \<Rightarrow> v | None \<Rightarrow> 0) else 0))"

definition key_name :: "state \<Rightarrow> string \<Rightarrow> bool \<times> string" where
  "key_name st p = (\<not> is_dir_get st p, lower (basename p))"

definition key_size :: "state \<Rightarrow> string \<Rightarrow> string \<Rightarrow> bool \<times> int \<times> string" where
  "key_size st path p = (\<not> is_dir_get st p, - sort_size st path p, lower (basename p))"

definition sorted_children :: "state \<Rightarrow> int \<Rightarrow> string \<Rightarrow> string list" where
  "sorted_children st mode path =
     (let kids = filter (\<lambda>k. k \<in> exists st) (children_of st path)
      in if mode = 1 then sort_key (key_name st) kids
         else if mode = 2 then sort_key (key_size st path) kids
         else sort_key (key_size st path) kids)"


text \<open>
  What \<^verbatim>\<open>draw\<close> does to the browser: the spinner advances while the scan runs, and the
  selection is clamped to the rows of a list that is not empty. \<open>st\<close> is the state at
  the header block and \<open>st'\<close> the state when the children are read.
\<close>

definition clamp_pos :: "int \<Rightarrow> nat \<Rightarrow> int" where
  "clamp_pos p n = max 0 (min p (int n - 1))"

definition draw :: "state \<Rightarrow> state \<Rightarrow> browser \<Rightarrow> browser" where
  "draw st st' b =
     (let b1 = (if scanning st then b\<lparr>spinner_idx := spinner_idx b + 1\<rparr> else b);
          kids = sorted_children st' (sort_mode b1) (cwd b1)
      in if kids \<noteq> [] then b1\<lparr>pos := clamp_pos (pos b1) (length kids)\<rparr> else b1)"

text \<open>The key codes of \<^verbatim>\<open>curses\<close> and of the characters the loop compares with.\<close>

definition KEY_DOWN :: int where "KEY_DOWN = 258"
definition KEY_UP :: int where "KEY_UP = 259"
definition KEY_LEFT :: int where "KEY_LEFT = 260"
definition KEY_RIGHT :: int where "KEY_RIGHT = 261"

text \<open>
  Descending reads the children in one block (state \<open>st\<close>) and looks the selected one up
  in \<^verbatim>\<open>is_dir\<close> in a second block (state \<open>st'\<close>, the same or a later one).
\<close>

definition descend :: "state \<Rightarrow> state \<Rightarrow> browser \<Rightarrow> browser" where
  "descend st st' b =
     (let kids = sorted_children st (sort_mode b) (cwd b)
      in if kids = [] then b
         else let b1 = b\<lparr>pos := clamp_pos (pos b) (length kids)\<rparr>;
                  sel = kids ! nat (pos b1)
              in if is_dir_get st' sel then b1\<lparr>cwd := sel, pos := 0\<rparr> else b1)"

definition ascend :: "state \<Rightarrow> browser \<Rightarrow> browser" where
  "ascend st b =
     (let parent = dirname (cwd b)
      in if parent \<noteq> [] \<and> parent \<in> exists st then b\<lparr>cwd := parent, pos := 0\<rparr> else b)"

text \<open>One key in the loop of \<^verbatim>\<open>run\<close>; \<open>None\<close> is the \<^verbatim>\<open>break\<close>.\<close>

definition handle_key :: "state \<Rightarrow> state \<Rightarrow> int \<Rightarrow> browser \<Rightarrow> browser option" where
  "handle_key st st' ch b =
     (if ch = 113 \<or> ch = 27 then None
      else if ch = KEY_UP \<or> ch = 107 then Some (b\<lparr>pos := max 0 (pos b - 1)\<rparr>)
      else if ch = KEY_DOWN \<or> ch = 106 then Some (b\<lparr>pos := pos b + 1\<rparr>)
      else if ch = KEY_RIGHT \<or> ch = 10 then Some (descend st st' b)
      else if ch = KEY_LEFT then Some (ascend st b)
      else if ch = 115 then Some (b\<lparr>sort_mode := (sort_mode b + 1) mod 3\<rparr>)
      else Some b)"

text \<open>
  The browser beside the scanner: \<open>k\<close> counts the blocks the scanner has run, and the
  browser draws or handles a key on the states it finds, the later one \<open>k'\<close> blocks in.
\<close>

definition state_at :: "step list \<Rightarrow> state \<Rightarrow> nat \<Rightarrow> state" where
  "state_at steps st0 k = run (take k steps) st0"

inductive browsing :: "step list \<Rightarrow> state \<Rightarrow> nat \<Rightarrow> browser \<Rightarrow> bool"
  for steps :: "step list" and st0 :: state where
  start: "browsing steps st0 0 (Browser_init st0)"
| scan: "browsing steps st0 k b \<Longrightarrow> k < length steps \<Longrightarrow> browsing steps st0 (Suc k) b"
| drawn: "browsing steps st0 k b \<Longrightarrow> k \<le> k' \<Longrightarrow> k' \<le> length steps \<Longrightarrow>
      browsing steps st0 k' (draw (state_at steps st0 k) (state_at steps st0 k') b)"
| key: "browsing steps st0 k b \<Longrightarrow> k \<le> k' \<Longrightarrow> k' \<le> length steps \<Longrightarrow>
      handle_key (state_at steps st0 k) (state_at steps st0 k') ch b = Some b' \<Longrightarrow>
      browsing steps st0 k' b'"

section \<open>What each block does to each field\<close>

lemma setdefault_children_fields [simp]:
  "root_path (setdefault_children d st) = root_path st"
  "size_map (setdefault_children d st) = size_map st"
  "exists (setdefault_children d st) = exists st"
  "is_dir (setdefault_children d st) = is_dir st"
  "total_files (setdefault_children d st) = total_files st"
  "seen_files (setdefault_children d st) = seen_files st"
  "total_dirs (setdefault_children d st) = total_dirs st"
  "seen_dirs (setdefault_children d st) = seen_dirs st"
  "scanning (setdefault_children d st) = scanning st"
  "errors (setdefault_children d st) = errors st"
  "children_of (setdefault_children d st) p = children_of st p"
  by (simp_all add: setdefault_children_def children_of_def split: option.split)

lemma setdefault_children_dom [simp]:
  "(children (setdefault_children d st) p = None) = (p \<noteq> d \<and> children st p = None)"
  by (simp add: setdefault_children_def split: option.split)

lemma append_child_fields [simp]:
  "root_path (append_child d c st) = root_path st"
  "size_map (append_child d c st) = size_map st"
  "exists (append_child d c st) = exists st"
  "is_dir (append_child d c st) = is_dir st"
  "total_files (append_child d c st) = total_files st"
  "seen_files (append_child d c st) = seen_files st"
  "total_dirs (append_child d c st) = total_dirs st"
  "seen_dirs (append_child d c st) = seen_dirs st"
  "scanning (append_child d c st) = scanning st"
  "errors (append_child d c st) = errors st"
  "children_of (append_child d c st) p = (if p = d then children_of st d @ [c] else children_of st p)"
  by (simp_all add: append_child_def children_of_def)

lemma children_of_update [simp]:
  "children_of (st\<lparr>exists := e\<rparr>) = children_of st"
  "children_of (st\<lparr>is_dir := i\<rparr>) = children_of st"
  "children_of (st\<lparr>size_map := m\<rparr>) = children_of st"
  "children_of (st\<lparr>total_files := n\<rparr>) = children_of st"
  "children_of (st\<lparr>seen_files := n\<rparr>) = children_of st"
  "children_of (st\<lparr>total_dirs := n\<rparr>) = children_of st"
  "children_of (st\<lparr>seen_dirs := n\<rparr>) = children_of st"
  "children_of (st\<lparr>scanning := f\<rparr>) = children_of st"
  "children_of (st\<lparr>errors := n\<rparr>) = children_of st"
  by (simp_all add: children_of_def fun_eq_iff)

lemma size_of_update [simp]:
  "size_of (st\<lparr>exists := e\<rparr>) = size_of st"
  "size_of (st\<lparr>is_dir := i\<rparr>) = size_of st"
  "size_of (st\<lparr>children := c\<rparr>) = size_of st"
  "size_of (st\<lparr>total_files := n\<rparr>) = size_of st"
  "size_of (st\<lparr>seen_files := n\<rparr>) = size_of st"
  "size_of (st\<lparr>total_dirs := n\<rparr>) = size_of st"
  "size_of (st\<lparr>seen_dirs := n\<rparr>) = size_of st"
  "size_of (st\<lparr>scanning := f\<rparr>) = size_of st"
  "size_of (st\<lparr>errors := n\<rparr>) = size_of st"
  by (simp_all add: size_of_def fun_eq_iff)

lemma pre_enter_fields [simp]:
  "root_path (pre_enter d st) = root_path st"
  "size_map (pre_enter d st) = size_map st"
  "exists (pre_enter d st) = insert d (exists st)"
  "is_dir (pre_enter d st) = (is_dir st)(d \<mapsto> True)"
  "total_files (pre_enter d st) = total_files st"
  "seen_files (pre_enter d st) = seen_files st"
  "total_dirs (pre_enter d st) = total_dirs st + 1"
  "seen_dirs (pre_enter d st) = seen_dirs st"
  "scanning (pre_enter d st) = scanning st"
  "errors (pre_enter d st) = errors st"
  "children_of (pre_enter d st) p = children_of st p"
  by (simp_all add: pre_enter_def Let_def)

lemma pre_child_fields [simp]:
  "root_path (pre_child d n st) = root_path st"
  "size_map (pre_child d n st) = size_map st"
  "exists (pre_child d n st) = insert (join_path d n) (exists st)"
  "is_dir (pre_child d n st) = (is_dir st)(join_path d n \<mapsto> True)"
  "total_files (pre_child d n st) = total_files st"
  "seen_files (pre_child d n st) = seen_files st"
  "total_dirs (pre_child d n st) = total_dirs st"
  "seen_dirs (pre_child d n st) = seen_dirs st"
  "scanning (pre_child d n st) = scanning st"
  "errors (pre_child d n st) = errors st"
  "children_of (pre_child d n st) p =
     (if p = d then children_of st d @ [join_path d n] else children_of st p)"
  by (simp_all add: pre_child_def Let_def)

lemma pre_files_fields [simp]:
  "root_path (pre_files n st) = root_path st"
  "size_map (pre_files n st) = size_map st"
  "exists (pre_files n st) = exists st"
  "is_dir (pre_files n st) = is_dir st"
  "children (pre_files n st) = children st"
  "total_files (pre_files n st) = total_files st + int n"
  "seen_files (pre_files n st) = seen_files st"
  "total_dirs (pre_files n st) = total_dirs st"
  "seen_dirs (pre_files n st) = seen_dirs st"
  "scanning (pre_files n st) = scanning st"
  "errors (pre_files n st) = errors st"
  "children_of (pre_files n st) = children_of st"
  by (simp_all add: pre_files_def)

lemma live_dir_child_fields [simp]:
  "root_path (live_dir_child d n st) = root_path st"
  "size_map (live_dir_child d n st) = size_map st"
  "exists (live_dir_child d n st) = exists st"
  "is_dir (live_dir_child d n st) = is_dir st"
  "total_files (live_dir_child d n st) = total_files st"
  "seen_files (live_dir_child d n st) = seen_files st"
  "total_dirs (live_dir_child d n st) = total_dirs st"
  "seen_dirs (live_dir_child d n st) = seen_dirs st"
  "scanning (live_dir_child d n st) = scanning st"
  "errors (live_dir_child d n st) = errors st"
  by (simp_all add: live_dir_child_def Let_def)

lemma fold_live_dir_child_fields [simp]:
  "root_path (fold (live_dir_child d) ns st) = root_path st"
  "size_map (fold (live_dir_child d) ns st) = size_map st"
  "exists (fold (live_dir_child d) ns st) = exists st"
  "is_dir (fold (live_dir_child d) ns st) = is_dir st"
  "total_files (fold (live_dir_child d) ns st) = total_files st"
  "seen_files (fold (live_dir_child d) ns st) = seen_files st"
  "total_dirs (fold (live_dir_child d) ns st) = total_dirs st"
  "seen_dirs (fold (live_dir_child d) ns st) = seen_dirs st"
  "scanning (fold (live_dir_child d) ns st) = scanning st"
  "errors (fold (live_dir_child d) ns st) = errors st"
  by (induction ns arbitrary: st; simp)+

lemma live_enter_fields [simp]:
  "root_path (live_enter d ns st) = root_path st"
  "size_map (live_enter d ns st) = size_map st"
  "exists (live_enter d ns st) = insert d (exists st)"
  "is_dir (live_enter d ns st) = (is_dir st)(d \<mapsto> True)"
  "total_files (live_enter d ns st) = total_files st"
  "seen_files (live_enter d ns st) = seen_files st"
  "total_dirs (live_enter d ns st) = total_dirs st"
  "seen_dirs (live_enter d ns st) = seen_dirs st + 1"
  "scanning (live_enter d ns st) = scanning st"
  "errors (live_enter d ns st) = errors st"
  by (simp_all add: live_enter_def Let_def)

lemma live_file_fields [simp]:
  "root_path (live_file d n st) = root_path st"
  "size_map (live_file d n st) = size_map st"
  "exists (live_file d n st) = insert (join_path d n) (exists st)"
  "is_dir (live_file d n st) = (is_dir st)(join_path d n \<mapsto> False)"
  "total_files (live_file d n st) = total_files st"
  "seen_files (live_file d n st) = seen_files st"
  "total_dirs (live_file d n st) = total_dirs st"
  "seen_dirs (live_file d n st) = seen_dirs st"
  "scanning (live_file d n st) = scanning st"
  "errors (live_file d n st) = errors st"
  "children_of (live_file d n st) p =
     (if p = d then children_of st d @ [join_path d n] else children_of st p)"
  by (simp_all add: live_file_def Let_def)

lemma size_error_fields [simp]:
  "root_path (size_error st) = root_path st"
  "size_map (size_error st) = size_map st"
  "exists (size_error st) = exists st"
  "is_dir (size_error st) = is_dir st"
  "children (size_error st) = children st"
  "total_files (size_error st) = total_files st"
  "seen_files (size_error st) = seen_files st"
  "total_dirs (size_error st) = total_dirs st"
  "seen_dirs (size_error st) = seen_dirs st"
  "scanning (size_error st) = scanning st"
  "errors (size_error st) = errors st + 1"
  "children_of (size_error st) = children_of st"
  "size_of (size_error st) = size_of st"
  by (simp_all add: size_error_def)

lemma add_size_fields [simp]:
  "root_path (add_size sz a st) = root_path st"
  "exists (add_size sz a st) = exists st"
  "is_dir (add_size sz a st) = is_dir st"
  "children (add_size sz a st) = children st"
  "total_files (add_size sz a st) = total_files st"
  "seen_files (add_size sz a st) = seen_files st"
  "total_dirs (add_size sz a st) = total_dirs st"
  "seen_dirs (add_size sz a st) = seen_dirs st"
  "scanning (add_size sz a st) = scanning st"
  "errors (add_size sz a st) = errors st"
  "children_of (add_size sz a st) = children_of st"
  "size_of (add_size sz a st) p = (if p = a then size_of st a + sz else size_of st p)"
  by (simp_all add: add_size_def size_of_def)

lemma fold_add_size_fields [simp]:
  "root_path (fold (add_size sz) as st) = root_path st"
  "exists (fold (add_size sz) as st) = exists st"
  "is_dir (fold (add_size sz) as st) = is_dir st"
  "children (fold (add_size sz) as st) = children st"
  "total_files (fold (add_size sz) as st) = total_files st"
  "seen_files (fold (add_size sz) as st) = seen_files st"
  "total_dirs (fold (add_size sz) as st) = total_dirs st"
  "seen_dirs (fold (add_size sz) as st) = seen_dirs st"
  "scanning (fold (add_size sz) as st) = scanning st"
  "errors (fold (add_size sz) as st) = errors st"
  "children_of (fold (add_size sz) as st) = children_of st"
  by (induction as arbitrary: st; simp)+

lemma bubble_fields [simp]:
  "root_path (bubble p sz st) = root_path st"
  "exists (bubble p sz st) = exists st"
  "is_dir (bubble p sz st) = is_dir st"
  "children (bubble p sz st) = children st"
  "total_files (bubble p sz st) = total_files st"
  "seen_files (bubble p sz st) = seen_files st + 1"
  "total_dirs (bubble p sz st) = total_dirs st"
  "seen_dirs (bubble p sz st) = seen_dirs st"
  "scanning (bubble p sz st) = scanning st"
  "errors (bubble p sz st) = errors st"
  "children_of (bubble p sz st) = children_of st"
  by (simp_all add: bubble_def Let_def)

lemma finish_fields [simp]:
  "root_path (finish st) = root_path st"
  "size_map (finish st) = size_map st"
  "exists (finish st) = exists st"
  "is_dir (finish st) = is_dir st"
  "children (finish st) = children st"
  "total_files (finish st) = total_files st"
  "seen_files (finish st) = seen_files st"
  "total_dirs (finish st) = total_dirs st"
  "seen_dirs (finish st) = seen_dirs st"
  "scanning (finish st) = False"
  "errors (finish st) = errors st"
  "children_of (finish st) = children_of st"
  "size_of (finish st) = size_of st"
  by (simp_all add: finish_def)

section \<open>Properties of the size formatter\<close>

declare bit_len.simps [simp del] digits10.simps [simp del]

























text \<open>
  C9, as the code has it. For every input that \<^verbatim>\<open>float\<close> cannot convert (it raises
  \<^verbatim>\<open>TypeError\<close>, \<^verbatim>\<open>ValueError\<close> or \<^verbatim>\<open>OverflowError\<close>), \<^verbatim>\<open>human\<close> returns the marker \<^verbatim>\<open>?\<close>;
  it never raises. The marker is the one-character string \<^verbatim>\<open>?\<close>, not the word
  \<^verbatim>\<open>unknown\<close>.
\<close>

theorem human_not_a_number:
  assumes "py_float strtod v = Inl e"
  shows "human strtod v = ''?''"
  using assms by (simp add: human_def)

theorem human_not_a_number_witness:
  "human (\<lambda>s. None) PNone = ''?'' \<and> human (\<lambda>s. None) (PStr ''abc'') = ''?''"
proof -
  have a: "py_float (\<lambda>s. None) PNone = Inl TypeError" by (simp add: py_float_def)
  have b: "py_float (\<lambda>s. None) (PStr ''abc'') = Inl ValueError" by (simp add: py_float_def)
  show ?thesis
    using human_not_a_number [OF a] human_not_a_number [OF b] by simp
qed

theorem human_marker_is_not_the_word_unknown:
  "human (\<lambda>s. None) PNone \<noteq> ''unknown''"
  by (simp add: human_def py_float_def)

section \<open>Properties of the browser\<close>

lemmas key_codes = KEY_UP_def KEY_DOWN_def KEY_LEFT_def KEY_RIGHT_def

text \<open>
  C6. The sort modes 0 (by size) and 2 (by type) give the same list for every state and
  path: the children that exist, sorted by one key. One key is below another when it
  is a directory and the other is not, or both are of one kind and its size is larger,
  or the sizes are equal too and its name in lower case comes first.
\<close>

theorem size_and_type_modes_agree:
  "sorted_children st 0 path = sorted_children st 2 path
   \<and> sorted (map (key_size st path) (sorted_children st 0 path))
   \<and> mset (sorted_children st 0 path) = mset (filter (\<lambda>k. k \<in> exists st) (children_of st path))
   \<and> (key_size st path a \<le> key_size st path b) =
       (is_dir_get st a \<and> \<not> is_dir_get st b
        \<or> is_dir_get st a = is_dir_get st b
          \<and> (sort_size st path b < sort_size st path a
             \<or> sort_size st path a = sort_size st path b \<and> lower (basename a) \<le> lower (basename b)))"
  by (auto simp: sorted_children_def key_size_def less_eq_prod_def less_prod_def)



lemma abspath_data: "abspath ''/data'' = ''/data''"
  by (simp add: abspath_def normpath_def initial_slashes_def norm_step_def sep_def)

lemma State_init_fields [simp]:
  "root_path (State_init r) = abspath r"
  "size_map (State_init r) = Map.empty"
  "exists (State_init r) = {}"
  "children (State_init r) = Map.empty"
  "is_dir (State_init r) = Map.empty"
  "total_files (State_init r) = 1"
  "seen_files (State_init r) = 0"
  "total_dirs (State_init r) = 1"
  "seen_dirs (State_init r) = 0"
  "scanning (State_init r) = True"
  "errors (State_init r) = 0"
  "children_of (State_init r) p = []"
  "size_of (State_init r) p = 0"
  by (simp_all add: State_init_def children_of_def size_of_def)




section \<open>Facts about paths\<close>

text \<open>
  A directory path is clean when it does not end in a slash, unless it consists of
  slashes only; \<open>path_at r ns\<close> is the path reached from \<open>r\<close> by joining the names \<open>ns\<close>
  one after the other.
\<close>

definition clean_dir :: "string \<Rightarrow> bool" where
  "clean_dir d = (d = [] \<or> last d \<noteq> sep \<or> d = replicate (length d) sep)"

definition path_at :: "string \<Rightarrow> string list \<Rightarrow> string" where
  "path_at r ns = foldl join_path r ns"

lemma valid_name_hd: "valid_name n \<Longrightarrow> n \<noteq> [] \<and> hd n \<noteq> sep \<and> last n \<noteq> sep"
  by (metis hd_in_set last_in_set valid_name_def)

lemma join_path_valid:
  "valid_name n \<Longrightarrow> join_path d n = (if d = [] \<or> last d = sep then d @ n else d @ sep # n)"
  using valid_name_hd [of n] by (simp add: join_path_def)

lemma path_head_append_name:
  "valid_name n \<Longrightarrow> path_head (d @ n) = path_head d"
proof -
  assume "valid_name n"
  then have "\<And>c. c \<in> set (rev n) \<Longrightarrow> c \<noteq> sep" by (auto simp: valid_name_def)
  then have "dropWhile (\<lambda>c. c \<noteq> sep) (rev n @ rev d) = dropWhile (\<lambda>c. c \<noteq> sep) (rev d)"
    by (rule dropWhile_append2)
  then show ?thesis by (simp add: path_head_def)
qed

lemma path_head_sep: "path_head (d @ [sep]) = d @ [sep]"
  by (simp add: path_head_def)

lemma path_head_last_sep: "d \<noteq> [] \<Longrightarrow> last d = sep \<Longrightarrow> path_head d = d"
  by (cases d rule: rev_cases) (auto simp: path_head_def)

lemma rstrip_sep_snoc: "d \<noteq> [] \<Longrightarrow> last d \<noteq> sep \<Longrightarrow> rstrip_sep (d @ [sep]) = d"
  by (cases d rule: rev_cases) (auto simp: rstrip_sep_def)

lemma replicate_snoc_last: "d @ [c] = replicate k c \<Longrightarrow> d \<noteq> [] \<Longrightarrow> last d = c"
proof -
  assume a: "d @ [c] = replicate k c" and b: "d \<noteq> []"
  then have "set d \<subseteq> set (replicate k c)" by (metis set_append sup_ge1)
  then have "set d \<subseteq> {c}" by auto
  with last_in_set [OF b] show ?thesis by blast
qed

lemma dirname_join:
  assumes "clean_dir d" and "valid_name n"
  shows "dirname (join_path d n) = d"
proof (cases "d = [] \<or> last d = sep")
  case True
  then have j: "join_path d n = d @ n" using assms(2) by (simp add: join_path_valid)
  have h: "path_head (d @ n) = path_head d" using assms(2) by (rule path_head_append_name)
  show ?thesis
  proof (cases "d = []")
    case True
    then show ?thesis using j h by (simp add: dirname_def path_head_def)
  next
    case False
    with True have l: "last d = sep" by simp
    then have "path_head d = d" using False by (simp add: path_head_last_sep)
    moreover have "d = replicate (length d) sep" using assms(1) False l by (simp add: clean_dir_def)
    ultimately show ?thesis using j h by (simp add: dirname_def)
  qed
next
  case False
  then have j: "join_path d n = (d @ [sep]) @ n" using assms(2) by (simp add: join_path_valid)
  have h: "path_head ((d @ [sep]) @ n) = d @ [sep]"
    using assms(2) by (simp only: path_head_append_name path_head_sep)
  have "d @ [sep] \<noteq> replicate (length (d @ [sep])) sep"
    using False replicate_snoc_last [of d sep] by blast
  then show ?thesis
    using j h False by (simp add: dirname_def rstrip_sep_snoc del: append_assoc)
qed

lemma basename_join:
  assumes "valid_name n"
  shows "basename (join_path d n) = n"
proof -
  have n: "\<And>c. c \<in> set (rev n) \<Longrightarrow> c \<noteq> sep" using assms by (auto simp: valid_name_def)
  have a: "takeWhile (\<lambda>c. c \<noteq> sep) (rev n @ sep # xs) = rev n" for xs
  proof -
    have "takeWhile (\<lambda>c. c \<noteq> sep) (rev n @ sep # xs) = rev n @ takeWhile (\<lambda>c. c \<noteq> sep) (sep # xs)"
      by (rule takeWhile_append2) (rule n)
    then show ?thesis by simp
  qed
  have b: "takeWhile (\<lambda>c. c \<noteq> sep) (rev n) = rev n"
    unfolding takeWhile_eq_all_conv using n by blast
  show ?thesis
  proof (cases "d = [] \<or> last d = sep")
    case True
    then have j: "join_path d n = d @ n" using assms by (simp add: join_path_valid)
    show ?thesis
    proof (cases "d = []")
      case True
      then show ?thesis using j by (simp add: basename_def b)
    next
      case False
      with True obtain d' where "d = d' @ [sep]" by (cases d rule: rev_cases) auto
      then show ?thesis using j a by (simp add: basename_def)
    qed
  next
    case False
    then have "join_path d n = d @ sep # n" using assms by (simp add: join_path_valid)
    then show ?thesis using a by (simp add: basename_def)
  qed
qed

lemma join_path_clean: "valid_name n \<Longrightarrow> clean_dir (join_path d n)"
  using valid_name_hd [of n] by (auto simp: join_path_valid clean_dir_def)

lemma join_path_longer: "valid_name n \<Longrightarrow> length d < length (join_path d n)"
  using valid_name_hd [of n] by (auto simp: join_path_valid)

lemma join_path_prefix: "valid_name n \<Longrightarrow> prefix d (join_path d n)"
  by (auto simp: join_path_valid)

lemma join_path_inj:
  assumes "clean_dir d" "clean_dir d'" "valid_name n" "valid_name n'"
    and "join_path d n = join_path d' n'"
  shows "d = d' \<and> n = n'"
  using assms dirname_join [of d n] dirname_join [of d' n'] basename_join [of n d] basename_join [of n' d']
  by simp

lemma path_at_simps [simp]:
  "path_at r [] = r"
  "path_at r (ns @ [n]) = join_path (path_at r ns) n"
  "path_at r (n # ns) = path_at (join_path r n) ns"
  by (simp_all add: path_at_def)

lemma path_at_append: "path_at r (ns @ ms) = path_at (path_at r ns) ms"
  by (simp add: path_at_def)

lemma path_at_clean: "clean_dir r \<Longrightarrow> list_all valid_name ns \<Longrightarrow> clean_dir (path_at r ns)"
  by (induction ns rule: rev_induct) (auto simp: join_path_clean)

lemma path_at_length: "list_all valid_name ns \<Longrightarrow> length r + length ns \<le> length (path_at r ns)"
proof (induction ns rule: rev_induct)
  case Nil
  then show ?case by simp
next
  case (snoc n ns)
  then show ?case using join_path_longer [of n "path_at r ns"] by simp
qed

lemma path_at_prefix: "list_all valid_name ns \<Longrightarrow> prefix r (path_at r ns)"
proof (induction ns rule: rev_induct)
  case Nil
  then show ?case by simp
next
  case (snoc n ns)
  then show ?case using join_path_prefix [of n "path_at r ns"] by (auto intro: prefix_order.trans)
qed

lemma path_at_inj:
  assumes "clean_dir r" "list_all valid_name ns" "list_all valid_name ms"
    and "path_at r ns = path_at r ms"
  shows "ns = ms"
  using assms(2-)
proof (induction ns arbitrary: ms rule: rev_induct)
  case Nil
  show ?case
  proof (cases ms)
    case Nil
    then show ?thesis by simp
  next
    case (Cons m ms')
    with Nil.prems path_at_length [of ms r] show ?thesis by simp
  qed
next
  case (snoc n ns)
  show ?case
  proof (cases ms rule: rev_cases)
    case Nil
    with snoc.prems path_at_length [of "ns @ [n]" r] show ?thesis by simp
  next
    case (snoc ms' m)
    have c1: "clean_dir (path_at r ns)" and c2: "clean_dir (path_at r ms')"
      using assms(1) snoc.prems snoc by (auto intro: path_at_clean)
    have "join_path (path_at r ns) n = join_path (path_at r ms') m"
      using snoc.prems snoc by simp
    then have "path_at r ns = path_at r ms' \<and> n = m"
      using c1 c2 snoc.prems snoc by (intro join_path_inj) auto
    moreover from this have "ns = ms'" using snoc.IH [of ms'] snoc.prems snoc by simp
    ultimately show ?thesis using snoc by simp
  qed
qed

text \<open>
  The root the program scans is the result of \<^verbatim>\<open>os.path.abspath\<close>: an absolute path that
  \<^verbatim>\<open>abspath\<close> leaves as it is.
\<close>

definition wf_root :: "string \<Rightarrow> bool" where
  "wf_root r = (isabs r \<and> abspath r = r)"

lemma split_sep_no_sep: "w \<in> set (split_sep s) \<Longrightarrow> sep \<notin> set w"
proof (induction s arbitrary: w)
  case Nil
  then show ?case by simp
next
  case (Cons c cs)
  then show ?case by (auto split: if_splits list.splits)
qed

lemma norm_step_valid:
  "list_all valid_name comps \<Longrightarrow> sep \<notin> set c \<Longrightarrow> list_all valid_name (norm_step ini comps c)"
  by (auto simp: norm_step_def valid_name_def list_all_iff dest: in_set_butlastD)

lemma foldl_norm_step_valid:
  "list_all valid_name comps \<Longrightarrow> \<forall>c \<in> set cs. sep \<notin> set c \<Longrightarrow>
   list_all valid_name (foldl (norm_step ini) comps cs)"
  by (induction cs arbitrary: comps) (auto simp: norm_step_valid)

lemma join_sep_last: "comps \<noteq> [] \<Longrightarrow> list_all valid_name comps \<Longrightarrow>
  join_sep comps \<noteq> [] \<and> last (join_sep comps) \<noteq> sep"
proof (induction comps rule: join_sep.induct)
  case 1
  then show ?case by simp
next
  case (2 w)
  then show ?case using valid_name_hd [of w] by simp
next
  case (3 w v vs)
  then show ?case by simp
qed

lemma normpath_clean: "isabs p \<Longrightarrow> clean_dir (normpath p)"
proof -
  assume a: "isabs p"
  then have p: "p \<noteq> []" by (auto simp: isabs_def)
  define comps where "comps = foldl (norm_step (initial_slashes p)) [] (split_sep p)"
  have v: "list_all valid_name comps"
    unfolding comps_def by (rule foldl_norm_step_valid) (auto dest: split_sep_no_sep)
  have ini: "0 < initial_slashes p" using a by (simp add: isabs_def initial_slashes_def)
  have n: "normpath p = replicate (initial_slashes p) sep @ join_sep comps"
    using p ini by (simp add: normpath_def comps_def Let_def)
  show ?thesis
  proof (cases "comps = []")
    case True
    then show ?thesis using n by (simp add: clean_dir_def)
  next
    case False
    then show ?thesis using n join_sep_last [OF False v] by (simp add: clean_dir_def)
  qed
qed

lemma wf_root_clean: "wf_root r \<Longrightarrow> clean_dir r"
  using normpath_clean [of r] by (simp add: wf_root_def abspath_def)

lemma ancestors_root: "wf_root r \<Longrightarrow> ancestors r r = [r]"
  by (simp add: ancestors_def wf_root_def ancestors_loop.simps)

lemma ancestors_join:
  assumes "wf_root r" "list_all valid_name ns" "valid_name n"
  shows "ancestors (join_path (path_at r ns) n) r = join_path (path_at r ns) n # ancestors (path_at r ns) r"
proof -
  let ?d = "path_at r ns"
  have c: "clean_dir ?d" using assms by (simp add: path_at_clean wf_root_clean)
  have d: "dirname (join_path ?d n) = ?d" using c assms(3) by (rule dirname_join)
  have l: "length r < length (join_path ?d n)"
    using path_at_length [OF assms(2), of r] join_path_longer [OF assms(3), of ?d] by linarith
  have l2: "length ?d < length (join_path ?d n)" using assms(3) by (rule join_path_longer)
  have "join_path ?d n \<noteq> r" "join_path ?d n \<noteq> ?d" using l l2 by auto
  then show ?thesis
    using assms(1) d by (simp add: ancestors_def wf_root_def ancestors_loop.simps [of "join_path ?d n"])
qed

lemma ancestors_path_at:
  assumes "wf_root r" "list_all valid_name ns"
  shows "ancestors (path_at r ns) r = map (path_at r) (rev (prefixes ns))"
  using assms(2)
proof (induction ns rule: rev_induct)
  case Nil
  then show ?case using assms(1) by (simp add: ancestors_root)
next
  case (snoc n ns)
  then show ?case using ancestors_join [OF assms(1), of ns n] by simp
qed

text \<open>The walk by names relative to the top.\<close>

fun walk_rel :: "fsnode \<Rightarrow> (string list \<times> string list \<times> string list) list" where
  "walk_rel (Dir es) =
     ([], dirnames es, filenames es)
       # concat (map (\<lambda>(n, c). map (\<lambda>(ns, dns, fns). (n # ns, dns, fns)) (walk_rel c))
                     (filter (\<lambda>e. \<not> is_file e) es))"
| "walk_rel File = []"
| "walk_rel Sealed = []"

lemma os_walk_rel:
  "os_walk tp node = map (\<lambda>(ns, dns, fns). (path_at tp ns, dns, fns)) (walk_rel node)"
proof (induction tp node rule: os_walk.induct)
  case (1 tp es)
  have "concat (map (\<lambda>(n, c). os_walk (join_path tp n) c) (filter (\<lambda>e. \<not> is_file e) es)) =
        concat (map (\<lambda>(n, c). map (\<lambda>(ns, dns, fns). (path_at (join_path tp n) ns, dns, fns)) (walk_rel c))
            (filter (\<lambda>e. \<not> is_file e) es))"
    by (rule arg_cong [where f = concat], rule map_cong [OF refl]) (auto simp: 1)
  then show ?case by (simp add: map_concat comp_def split_def)
next
  case (2 tp)
  then show ?case by simp
next
  case (3 tp)
  then show ?case by simp
qed

lemma fsnode_induct [case_names Dir File Sealed]:
  assumes "\<And>es. (\<And>n c. (n, c) \<in> set es \<Longrightarrow> P c) \<Longrightarrow> P (Dir es)" and "P File" and "P Sealed"
  shows "P node"
proof (induction node)
  case File
  show ?case by (rule assms(2))
next
  case (Dir es)
  show ?case
  proof (rule assms(1))
    fix n c
    assume "(n, c) \<in> set es"
    then show "P c" by (rule Dir) simp
  qed
next
  case Sealed
  show ?case by (rule assms(3))
qed

lemma walk_rel_Dir_set:
  "set (walk_rel (Dir es)) = insert ([], dirnames es, filenames es)
     (\<Union>e \<in> {e \<in> set es. \<not> is_file e}. (\<lambda>t. (fst e # fst t, snd t)) ` set (walk_rel (snd e)))"
  by (simp add: split_def)

lemma walk_rel_Dir_iff:
  "x \<in> set (walk_rel (Dir es)) \<longleftrightarrow>
     x = ([], dirnames es, filenames es)
     \<or> (\<exists>n c ns dns fns. x = (n # ns, dns, fns) \<and> (n, c) \<in> set es \<and> c \<noteq> File
            \<and> (ns, dns, fns) \<in> set (walk_rel c))"
proof -
  have A: "x \<in> set (walk_rel (Dir es)) \<longleftrightarrow> x = ([], dirnames es, filenames es)
     \<or> (\<exists>e \<in> set es. \<not> is_file e \<and> x \<in> (\<lambda>t. (fst e # fst t, snd t)) ` set (walk_rel (snd e)))"
    unfolding walk_rel_Dir_set by (simp only: insert_iff UN_iff mem_Collect_eq) blast
  have B: "(\<exists>e \<in> set es. \<not> is_file e \<and> x \<in> (\<lambda>t. (fst e # fst t, snd t)) ` set (walk_rel (snd e)))
     \<longleftrightarrow> (\<exists>n c ns dns fns. x = (n # ns, dns, fns) \<and> (n, c) \<in> set es \<and> c \<noteq> File
            \<and> (ns, dns, fns) \<in> set (walk_rel c))"
  proof
    assume "\<exists>e \<in> set es. \<not> is_file e \<and> x \<in> (\<lambda>t. (fst e # fst t, snd t)) ` set (walk_rel (snd e))"
    then obtain e y where e: "e \<in> set es" "\<not> is_file e" "y \<in> set (walk_rel (snd e))"
      "x = (fst e # fst y, snd y)" by blast
    then have "(fst e, snd e) \<in> set es" "snd e \<noteq> File" "(fst y, fst (snd y), snd (snd y)) \<in> set (walk_rel (snd e))"
      "x = (fst e # fst y, fst (snd y), snd (snd y))"
      by (auto simp: is_file_def)
    then show "\<exists>n c ns dns fns. x = (n # ns, dns, fns) \<and> (n, c) \<in> set es \<and> c \<noteq> File
            \<and> (ns, dns, fns) \<in> set (walk_rel c)" by blast
  next
    assume "\<exists>n c ns dns fns. x = (n # ns, dns, fns) \<and> (n, c) \<in> set es \<and> c \<noteq> File
            \<and> (ns, dns, fns) \<in> set (walk_rel c)"
    then obtain n c ns dns fns where h: "x = (n # ns, dns, fns)" "(n, c) \<in> set es" "c \<noteq> File"
      "(ns, dns, fns) \<in> set (walk_rel c)" by blast
    have "\<not> is_file (n, c)" using h(3) by (simp add: is_file_def)
    moreover have "x \<in> (\<lambda>t. (fst (n, c) # fst t, snd t)) ` set (walk_rel (snd (n, c)))"
      using h(1,4) by (auto simp: image_iff intro!: bexI [of _ "(ns, dns, fns)"])
    ultimately show "\<exists>e \<in> set es. \<not> is_file e \<and> x \<in> (\<lambda>t. (fst e # fst t, snd t)) ` set (walk_rel (snd e))"
      using h(2) by blast
  qed
  show ?thesis by (simp only: A B)
qed

lemma names_distinct:
  "distinct (map fst es) \<Longrightarrow> distinct (dirnames es @ filenames es)"
proof (induction es)
  case Nil
  then show ?case by (simp add: dirnames_def filenames_def)
next
  case (Cons e es)
  then show ?case by (auto simp: dirnames_def filenames_def)
qed

lemma names_set: "set (dirnames es @ filenames es) = fst ` set es"
  by (auto simp: dirnames_def filenames_def)

lemma walk_rel_names:
  "wf_fs node \<Longrightarrow> (ns, dns, fns) \<in> set (walk_rel node) \<Longrightarrow>
   list_all valid_name ns \<and> list_all valid_name (dns @ fns) \<and> distinct (dns @ fns)"
proof (induction node arbitrary: ns rule: fsnode_induct)
  case (Dir es)
  from Dir(3) consider (top) "ns = []" "dns = dirnames es" "fns = filenames es"
    | (sub) n c ms where "ns = n # ms" "(n, c) \<in> set es" "c \<noteq> File" "(ms, dns, fns) \<in> set (walk_rel c)"
    unfolding walk_rel_Dir_iff by auto
  then show ?case
  proof cases
    case top
    have "list_all valid_name (dirnames es @ filenames es)"
      unfolding list_all_iff names_set using Dir(2) by auto
    then show ?thesis using top names_distinct [of es] Dir(2) by simp
  next
    case sub
    have "wf_fs c" "valid_name n" using Dir(2) sub(2) by auto
    then show ?thesis using Dir(1) [OF sub(2), of ms] sub by simp
  qed
next
  case File
  then show ?case by simp
next
  case Sealed
  then show ?case by simp
qed

lemma distinct_concat_map:
  "distinct (map fst es) \<Longrightarrow> (\<And>e. e \<in> set es \<Longrightarrow> distinct (h e)) \<Longrightarrow>
   (\<And>e e'. e \<in> set es \<Longrightarrow> e' \<in> set es \<Longrightarrow> fst e \<noteq> fst e' \<Longrightarrow> set (h e) \<inter> set (h e') = {}) \<Longrightarrow>
   distinct (concat (map h es))"
proof (induction es)
  case Nil
  then show ?case by simp
next
  case (Cons e es)
  have "set (h e) \<inter> set (h e') = {}" if "e' \<in> set es" for e'
    using Cons.prems(1) that by (intro Cons.prems(3)) (auto simp: image_iff)
  then show ?case using Cons by auto
qed

lemma walk_rel_distinct: "wf_fs node \<Longrightarrow> distinct (map fst (walk_rel node))"
proof (induction node rule: fsnode_induct)
  case (Dir es)
  let ?sub = "filter (\<lambda>e. \<not> is_file e) es"
  let ?h = "\<lambda>e. map (\<lambda>ns. fst e # ns) (map fst (walk_rel (snd e)))"
  have keys: "map fst (walk_rel (Dir es)) = [] # concat (map ?h ?sub)"
    by (simp add: map_concat comp_def split_def)
  have "distinct (map fst ?sub)" using Dir(2) by (simp add: distinct_map_filter)
  moreover have "distinct (?h e)" if "e \<in> set ?sub" for e
  proof -
    have "wf_fs (snd e)" "(fst e, snd e) \<in> set es" using Dir(2) that by auto
    then have "distinct (map fst (walk_rel (snd e)))"
      using Dir(1) [of "fst e" "snd e"] by simp
    then show ?thesis by (simp add: distinct_map inj_on_def)
  qed
  moreover have "set (?h e) \<inter> set (?h e') = {}" if "fst e \<noteq> fst e'" for e e'
    using that by auto
  ultimately have "distinct (concat (map ?h ?sub))" by (intro distinct_concat_map) auto
  moreover have "[] \<notin> set (concat (map ?h ?sub))" by auto
  ultimately show ?case unfolding keys by simp
next
  case File
  then show ?case by simp
next
  case Sealed
  then show ?case by simp
qed

lemma walk_rel_parent:
  "(ns @ [x], dns, fns) \<in> set (walk_rel node) \<Longrightarrow>
   \<exists>dns' fns'. (ns, dns', fns') \<in> set (walk_rel node) \<and> x \<in> set dns'"
proof (induction node arbitrary: ns rule: fsnode_induct)
  case (Dir es)
  from Dir(2) obtain n c ms where
    sub: "ns @ [x] = n # ms" "(n, c) \<in> set es" "c \<noteq> File" "(ms, dns, fns) \<in> set (walk_rel c)"
    unfolding walk_rel_Dir_iff by auto
  show ?case
  proof (cases ns)
    case Nil
    with sub have "x = n" by simp
    moreover have "n \<in> set (dirnames es)" using sub by (force simp: dirnames_def is_file_def)
    ultimately show ?thesis using Nil unfolding walk_rel_Dir_iff by blast
  next
    case (Cons a ns')
    with sub have "a = n" "ms = ns' @ [x]" by auto
    with Dir(1) [OF sub(2), of ns'] sub obtain dns' fns'
      where "(ns', dns', fns') \<in> set (walk_rel c)" "x \<in> set dns'" by auto
    then show ?thesis using Cons \<open>a = n\<close> sub unfolding walk_rel_Dir_iff by blast
  qed
next
  case File
  then show ?case by simp
next
  case Sealed
  then show ?case by simp
qed

lemma walk_rel_root: "walk_rel node \<noteq> [] \<Longrightarrow> \<exists>dns fns. ([], dns, fns) \<in> set (walk_rel node)"
  by (cases node) auto

section \<open>Facts about the walk\<close>

lemma os_walk_iff:
  "(dp, dns, fns) \<in> set (os_walk r fs) \<longleftrightarrow>
     (\<exists>ns. dp = path_at r ns \<and> (ns, dns, fns) \<in> set (walk_rel fs))"
  unfolding os_walk_rel by (auto simp: image_iff) force

lemma os_walk_names:
  assumes "wf_root r" "wf_fs fs" "(dp, dns, fns) \<in> set (os_walk r fs)"
  shows "clean_dir dp" "list_all valid_name (dns @ fns)" "distinct (dns @ fns)" "prefix r dp"
proof -
  from assms(3) obtain ns where ns: "dp = path_at r ns" "(ns, dns, fns) \<in> set (walk_rel fs)"
    unfolding os_walk_iff by blast
  note n = walk_rel_names [OF assms(2) ns(2)]
  show "clean_dir dp" using ns(1) n assms(1) by (simp add: path_at_clean wf_root_clean)
  show "list_all valid_name (dns @ fns)" using n by simp
  show "distinct (dns @ fns)" using n by simp
  show "prefix r dp" using ns(1) n by (simp add: path_at_prefix)
qed

lemma os_walk_distinct:
  assumes "wf_root r" "wf_fs fs"
  shows "distinct (map fst (os_walk r fs))"
proof -
  have m: "map fst (os_walk r fs) = map (path_at r) (map fst (walk_rel fs))"
    unfolding os_walk_rel by (simp add: comp_def split_def)
  have inj: "inj_on (path_at r) (set (map fst (walk_rel fs)))"
  proof (rule inj_onI)
    fix ns ms
    assume a: "ns \<in> set (map fst (walk_rel fs))" "ms \<in> set (map fst (walk_rel fs))"
      and e: "path_at r ns = path_at r ms"
    from a obtain dns fns dns' fns' where
      "(ns, dns, fns) \<in> set (walk_rel fs)" "(ms, dns', fns') \<in> set (walk_rel fs)" by auto
    then have "list_all valid_name ns" "list_all valid_name ms"
      using walk_rel_names [OF assms(2)] by blast+
    then show "ns = ms" using e assms(1) by (intro path_at_inj [of r]) (auto simp: wf_root_clean)
  qed
  show ?thesis
    unfolding m by (subst distinct_map) (use inj walk_rel_distinct [OF assms(2)] in blast)
qed

lemma os_walk_parent:
  assumes "(dp, dns, fns) \<in> set (os_walk r fs)"
  shows "dp = r \<or> (\<exists>dp' dns' fns' d. (dp', dns', fns') \<in> set (os_walk r fs) \<and> d \<in> set dns'
            \<and> dp = join_path dp' d)"
proof -
  from assms obtain ns where ns: "dp = path_at r ns" "(ns, dns, fns) \<in> set (walk_rel fs)"
    unfolding os_walk_iff by blast
  show ?thesis
  proof (cases ns rule: rev_cases)
    case Nil
    then show ?thesis using ns by simp
  next
    case (snoc ms x)
    with ns(2) walk_rel_parent [of ms x dns fns fs] obtain dns' fns'
      where p: "(ms, dns', fns') \<in> set (walk_rel fs)" "x \<in> set dns'" by blast
    then have "(path_at r ms, dns', fns') \<in> set (os_walk r fs)" unfolding os_walk_iff by blast
    then show ?thesis using p(2) ns(1) snoc by auto
  qed
qed

lemma os_walk_same_dir:
  assumes "wf_root r" "wf_fs fs"
    and "(dp, dns, fns) \<in> set (os_walk r fs)" "(dp, dns', fns') \<in> set (os_walk r fs)"
  shows "dns' = dns \<and> fns' = fns"
  using eq_key_imp_eq_value [OF os_walk_distinct [OF assms(1,2)] assms(3) assms(4)] by simp

text \<open>The paths the scan records as directories and as files.\<close>

definition dir_paths :: "string \<Rightarrow> fsnode \<Rightarrow> string set" where
  "dir_paths r fs =
     {dp. \<exists>dns fns. (dp, dns, fns) \<in> set (os_walk r fs)}
     \<union> {join_path dp d | dp dns fns d. (dp, dns, fns) \<in> set (os_walk r fs) \<and> d \<in> set dns}"

definition file_paths :: "string \<Rightarrow> fsnode \<Rightarrow> string set" where
  "file_paths r fs =
     {join_path dp f | dp dns fns f. (dp, dns, fns) \<in> set (os_walk r fs) \<and> f \<in> set fns}"

lemma walked_in_dir_paths: "(dp, dns, fns) \<in> set (os_walk r fs) \<Longrightarrow> dp \<in> dir_paths r fs"
  unfolding dir_paths_def by blast

lemma child_in_dir_paths:
  "(dp, dns, fns) \<in> set (os_walk r fs) \<Longrightarrow> d \<in> set dns \<Longrightarrow> join_path dp d \<in> dir_paths r fs"
  unfolding dir_paths_def by blast

lemma file_in_file_paths:
  "(dp, dns, fns) \<in> set (os_walk r fs) \<Longrightarrow> f \<in> set fns \<Longrightarrow> join_path dp f \<in> file_paths r fs"
  unfolding file_paths_def by blast

lemma name_of_walk_valid:
  assumes "wf_root r" "wf_fs fs" "(dp, dns, fns) \<in> set (os_walk r fs)" "n \<in> set dns \<or> n \<in> set fns"
  shows "valid_name n"
  using os_walk_names(2) [OF assms(1-3)] assms(4) by (auto simp: list_all_iff)

lemma walked_is_joined:
  assumes "wf_root r" "wf_fs fs" "(dp, dns, fns) \<in> set (os_walk r fs)" "dp \<noteq> r"
  shows "\<exists>dp' dns' fns' d. (dp', dns', fns') \<in> set (os_walk r fs) \<and> d \<in> set dns' \<and> dp = join_path dp' d"
  using os_walk_parent [OF assms(3)] assms(4) by blast

lemma dir_paths_cases:
  assumes "wf_root r" "wf_fs fs" "p \<in> dir_paths r fs"
  shows "p = r \<or> (\<exists>dp dns fns d. (dp, dns, fns) \<in> set (os_walk r fs) \<and> d \<in> set dns \<and> p = join_path dp d)"
  using assms(3) os_walk_parent [of p _ _ r fs] unfolding dir_paths_def by blast

lemma dir_file_disjoint:
  assumes "wf_root r" "wf_fs fs"
  shows "dir_paths r fs \<inter> file_paths r fs = {}"
proof (rule ccontr)
  assume "dir_paths r fs \<inter> file_paths r fs \<noteq> {}"
  then obtain p where d: "p \<in> dir_paths r fs" and f: "p \<in> file_paths r fs" by blast
  from f obtain dp dns fns fn where
    w: "(dp, dns, fns) \<in> set (os_walk r fs)" "fn \<in> set fns" "p = join_path dp fn"
    unfolding file_paths_def by blast
  have vfn: "valid_name fn" using name_of_walk_valid [OF assms w(1)] w(2) by simp
  have "length r \<le> length dp" using os_walk_names(4) [OF assms w(1)] by (rule prefix_length_le)
  then have "p \<noteq> r" using join_path_longer [OF vfn, of dp] w(3) by auto
  with dir_paths_cases [OF assms d] obtain dp' dns' fns' dn where
    w': "(dp', dns', fns') \<in> set (os_walk r fs)" "dn \<in> set dns'" "p = join_path dp' dn" by blast
  have vdn: "valid_name dn" using name_of_walk_valid [OF assms w'(1)] w'(2) by simp
  have "dp = dp' \<and> fn = dn"
    using os_walk_names(1) [OF assms w(1)] os_walk_names(1) [OF assms w'(1)] vfn vdn w(3) w'(3)
    by (intro join_path_inj) auto
  then have "dn \<in> set fns'" "dn \<in> set dns'"
    using os_walk_same_dir [OF assms w(1), of dns' fns'] w w' by auto
  then show False using os_walk_names(3) [OF assms w'(1)] by auto
qed

lemma dir_paths_prefix:
  assumes "wf_root r" "wf_fs fs" "p \<in> dir_paths r fs \<union> file_paths r fs"
  shows "prefix r p"
proof -
  from assms(3) consider (w) dns fns where "(p, dns, fns) \<in> set (os_walk r fs)"
    | (c) dp dns fns n where "(dp, dns, fns) \<in> set (os_walk r fs)" "n \<in> set dns \<or> n \<in> set fns"
        "p = join_path dp n"
    unfolding dir_paths_def file_paths_def by blast
  then show ?thesis
  proof cases
    case w
    then show ?thesis using os_walk_names(4) [OF assms(1,2)] by blast
  next
    case c
    have "prefix r dp" using os_walk_names(4) [OF assms(1,2) c(1)] .
    moreover have "prefix dp p"
      using name_of_walk_valid [OF assms(1,2) c(1,2)] c(3) by (simp add: join_path_prefix)
    ultimately show ?thesis by (rule prefix_order.trans)
  qed
qed

lemma dir_paths_dirname:
  assumes "wf_root r" "wf_fs fs" "p \<in> dir_paths r fs" "p \<noteq> r"
  shows "dirname p \<in> dir_paths r fs"
proof -
  from dir_paths_cases [OF assms(1-3)] assms(4) obtain dp dns fns d where
    w: "(dp, dns, fns) \<in> set (os_walk r fs)" "d \<in> set dns" "p = join_path dp d" by blast
  have "dirname p = dp"
    using os_walk_names(1) [OF assms(1,2) w(1)] name_of_walk_valid [OF assms(1,2) w(1)] w(2,3)
    by (simp add: dirname_join)
  then show ?thesis using w(1) by (simp add: walked_in_dir_paths)
qed

section \<open>What the steps of a scan record\<close>

fun records_ok :: "string set \<Rightarrow> string set \<Rightarrow> step \<Rightarrow> bool" where
  "records_ok D F (PreEnter dp) = (dp \<in> D)"
| "records_ok D F (PreChild dp d) = (join_path dp d \<in> D)"
| "records_ok D F (LiveEnter dp dns) = (dp \<in> D)"
| "records_ok D F (LiveFile dp f) = (join_path dp f \<in> F)"
| "records_ok D F s = True"

lemma pre_count_steps_iff:
  "s \<in> set (pre_count_steps r fs) \<longleftrightarrow>
     (\<exists>dp dns fns. (dp, dns, fns) \<in> set (os_walk r fs)
        \<and> (s = PreEnter dp \<or> (\<exists>d \<in> set dns. s = PreChild dp d) \<or> s = PreFiles (length fns)))"
  unfolding pre_count_steps_def by (auto simp: image_iff) blast+

lemma live_steps_cases:
  "s \<in> set (live_steps gs r fs) \<Longrightarrow>
     s = SizeError \<or> (\<exists>dp dns fns. (dp, dns, fns) \<in> set (os_walk r fs)
        \<and> (s = LiveEnter dp dns \<or> (\<exists>f \<in> set fns. s = LiveFile dp f)))"
  unfolding live_steps_def live_file_steps_def by (auto split: option.splits)

lemma drain_steps_cases: "s \<in> set (drain_steps gs sched r fs) \<Longrightarrow> \<exists>p sz. s = Bubble p sz"
  unfolding drain_steps_def by auto

lemma scan_steps_cases:
  assumes "s \<in> set (scan_steps gs sched r fs)"
  shows "(\<exists>dp dns fns. (dp, dns, fns) \<in> set (os_walk r fs)
            \<and> (s = PreEnter dp \<or> (\<exists>d \<in> set dns. s = PreChild dp d) \<or> s = PreFiles (length fns)
               \<or> s = LiveEnter dp dns \<or> (\<exists>f \<in> set fns. s = LiveFile dp f)))
         \<or> s = SizeError \<or> (\<exists>p sz. s = Bubble p sz) \<or> s = Finish"
proof -
  from assms consider (pre) "s \<in> set (pre_count_steps r fs)" | (live) "s \<in> set (live_steps gs r fs)"
    | (drain) "s \<in> set (drain_steps gs sched r fs)" | (fin) "s = Finish"
    unfolding scan_steps_def by auto
  then show ?thesis
  proof cases
    case pre
    then show ?thesis unfolding pre_count_steps_iff by blast
  next
    case live
    from live_steps_cases [OF this] show ?thesis by blast
  next
    case drain
    from drain_steps_cases [OF this] show ?thesis by blast
  next
    case fin
    then show ?thesis by simp
  qed
qed

lemma scan_steps_records_ok:
  assumes "s \<in> set (scan_steps gs sched r fs)"
  shows "records_ok (dir_paths r fs) (file_paths r fs) s"
  using scan_steps_cases [OF assms]
  by (auto simp: walked_in_dir_paths child_in_dir_paths file_in_file_paths)

definition tidy :: "string set \<Rightarrow> string set \<Rightarrow> state \<Rightarrow> bool" where
  "tidy D F st =
     ((\<forall>p. is_dir st p = Some True \<longrightarrow> p \<in> D) \<and> (\<forall>p. is_dir st p = Some False \<longrightarrow> p \<in> F)
      \<and> (\<forall>p \<in> exists st. is_dir st p \<noteq> None))"

lemma tidy_init: "tidy D F (State_init r)"
  by (simp add: tidy_def)

lemma tidy_exec: "tidy D F st \<Longrightarrow> records_ok D F s \<Longrightarrow> tidy D F (exec s st)"
  by (cases s) (auto simp: tidy_def)

lemma grows_exec:
  assumes "D \<inter> F = {}" "tidy D F st" "records_ok D F s"
  shows "exists st \<subseteq> exists (exec s st)"
    and "is_dir st p = Some True \<Longrightarrow> is_dir (exec s st) p = Some True"
  using assms by (cases s; auto simp: tidy_def)+

lemma run_snoc [simp]: "run (T @ [s]) st = exec s (run T st)"
  by (simp add: run_def)

lemma run_Nil [simp]: "run [] st = st"
  by (simp add: run_def)

lemma run_append: "run (T @ R) st = run R (run T st)"
  by (simp add: run_def)

lemma state_at_0 [simp]: "state_at S st 0 = st"
  by (simp add: state_at_def)

lemma state_at_Suc: "k < length S \<Longrightarrow> state_at S st (Suc k) = exec (S ! k) (state_at S st k)"
  by (simp add: state_at_def take_Suc_conv_app_nth)

lemma state_at_end: "length S \<le> k \<Longrightarrow> state_at S st k = run S st"
  by (simp add: state_at_def)

lemma state_at_invariant:
  assumes "P st0" and "\<And>s st. s \<in> set S \<Longrightarrow> P st \<Longrightarrow> P (exec s st)"
  shows "P (state_at S st0 k)"
proof (induction k)
  case 0
  then show ?case using assms(1) by simp
next
  case (Suc k)
  show ?case
  proof (cases "k < length S")
    case True
    then show ?thesis using Suc assms(2) [of "S ! k"] by (simp add: state_at_Suc)
  next
    case False
    then have "state_at S st0 (Suc k) = state_at S st0 k" by (simp add: state_at_end)
    with Suc show ?thesis by simp
  qed
qed

lemma tidy_state_at:
  "tidy (dir_paths r fs) (file_paths r fs) (state_at (scan_steps gs sched r fs) (State_init r') k)"
  by (rule state_at_invariant) (auto intro: tidy_init tidy_exec scan_steps_records_ok)

lemma grows_state_at:
  fixes gs :: "string \<Rightarrow> int option" and sched :: "(string \<times> int) list \<Rightarrow> (string \<times> int) list"
  assumes "wf_root r" "wf_fs fs" "k \<le> k'"
  defines "S \<equiv> scan_steps gs sched r fs"
  shows "exists (state_at S (State_init r') k) \<subseteq> exists (state_at S (State_init r') k')
       \<and> (is_dir (state_at S (State_init r') k) p = Some True
            \<longrightarrow> is_dir (state_at S (State_init r') k') p = Some True)"
  using assms(3)
proof (induction k' rule: dec_induct)
  case base
  then show ?case by simp
next
  case (step n)
  show ?case
  proof (cases "n < length S")
    case True
    have t: "tidy (dir_paths r fs) (file_paths r fs) (state_at S (State_init r') n)"
      unfolding S_def by (rule tidy_state_at)
    have ok: "records_ok (dir_paths r fs) (file_paths r fs) (S ! n)"
      unfolding S_def using True by (intro scan_steps_records_ok [of _ gs sched]) (simp add: S_def)
    note g = grows_exec [OF dir_file_disjoint [OF assms(1,2)] t ok]
    show ?thesis using step.IH g(1) g(2) [of p] by (auto simp: state_at_Suc [OF True])
  next
    case False
    then have "state_at S (State_init r') (Suc n) = state_at S (State_init r') n"
      by (simp add: state_at_end)
    with step.IH show ?thesis by simp
  qed
qed

lemma clamp_pos_range: "0 < n \<Longrightarrow> 0 \<le> clamp_pos p n \<and> nat (clamp_pos p n) < n"
  by (auto simp: clamp_pos_def)


lemma set_sorted_children:
  "set (sorted_children st m path) = {c \<in> set (children_of st path). c \<in> exists st}"
  by (auto simp: sorted_children_def Let_def)

lemma is_dir_get_Some: "is_dir_get st p \<longleftrightarrow> is_dir st p = Some True"
  by (auto simp: is_dir_get_def split: option.splits)

lemma descend_cases:
  "descend st st' b = b
   \<or> (\<exists>kids. kids = sorted_children st (sort_mode b) (cwd b) \<and> kids \<noteq> []
        \<and> \<not> is_dir_get st' (kids ! nat (clamp_pos (pos b) (length kids)))
        \<and> descend st st' b = b\<lparr>pos := clamp_pos (pos b) (length kids)\<rparr>)
   \<or> (\<exists>kids sel. kids = sorted_children st (sort_mode b) (cwd b) \<and> kids \<noteq> []
        \<and> sel = kids ! nat (clamp_pos (pos b) (length kids)) \<and> is_dir_get st' sel
        \<and> descend st st' b = b\<lparr>cwd := sel, pos := 0\<rparr>)"
  by (auto simp: descend_def Let_def)

lemma descend_cwd:
  "cwd (descend st st' b) = cwd b
   \<or> (cwd (descend st st' b) \<in> set (children_of st (cwd b)) \<and> cwd (descend st st' b) \<in> exists st
        \<and> is_dir st' (cwd (descend st st' b)) = Some True)"
proof -
  from descend_cases [of st st' b] consider (same) "cwd (descend st st' b) = cwd b"
    | (moved) kids sel where "kids = sorted_children st (sort_mode b) (cwd b)" "kids \<noteq> []"
        "sel = kids ! nat (clamp_pos (pos b) (length kids))" "is_dir_get st' sel"
        "descend st st' b = b\<lparr>cwd := sel, pos := 0\<rparr>"
    by (elim disjE exE conjE) simp_all
  then show ?thesis
  proof cases
    case same
    then show ?thesis by simp
  next
    case moved
    have "nat (clamp_pos (pos b) (length kids)) < length kids"
      using moved(2) clamp_pos_range [of "length kids" "pos b"] by simp
    then have "sel \<in> set kids" unfolding moved(3) by (rule nth_mem)
    then have "sel \<in> set (children_of st (cwd b))" "sel \<in> exists st"
      unfolding moved(1) set_sorted_children by auto
    then show ?thesis using moved(4,5) by (simp add: is_dir_get_Some)
  qed
qed

lemma ascend_cwd:
  "cwd (ascend st b) = cwd b
   \<or> (cwd (ascend st b) = dirname (cwd b) \<and> dirname (cwd b) \<in> exists st)"
  by (simp add: ascend_def Let_def)

lemma handle_key_cwd:
  assumes "handle_key st st' ch b = Some b'"
  shows "cwd b' = cwd b \<or> b' = descend st st' b \<or> b' = ascend st b"
  using assms by (auto simp: handle_key_def split: if_splits)

lemma dirname_root_recorded:
  assumes "wf_root r" "wf_fs fs"
    and "tidy (dir_paths r fs) (file_paths r fs) st" and "dirname r \<in> exists st"
  shows "dirname r = r"
proof -
  have "is_dir st (dirname r) \<noteq> None" using assms(3,4) by (simp add: tidy_def)
  then obtain v where "is_dir st (dirname r) = Some v" by blast
  then have "dirname r \<in> dir_paths r fs \<union> file_paths r fs"
    using assms(3) by (cases v) (auto simp: tidy_def)
  then have "prefix r (dirname r)" by (rule dir_paths_prefix [OF assms(1,2)])
  then show ?thesis using dirname_prefix [of r] by (simp add: prefix_order.antisym)
qed

lemma parent_is_directory:
  assumes "wf_root r" "wf_fs fs"
    and "tidy (dir_paths r fs) (file_paths r fs) st"
    and "is_dir st p = Some True" "p \<noteq> r" "dirname p \<in> exists st"
  shows "is_dir st (dirname p) = Some True"
proof -
  have "p \<in> dir_paths r fs" using assms(3,4) by (simp add: tidy_def)
  then have d: "dirname p \<in> dir_paths r fs" using assms(5) by (intro dir_paths_dirname [OF assms(1,2)])
  have "is_dir st (dirname p) \<noteq> None" using assms(3,6) by (simp add: tidy_def)
  moreover have "is_dir st (dirname p) \<noteq> Some False"
    using assms(3) d dir_file_disjoint [OF assms(1,2)] by (auto simp: tidy_def)
  ultimately show ?thesis by (metis (full_types) option.exhaust)
qed

lemma wf_root_abspath: "wf_root r \<Longrightarrow> abspath r = r"
  unfolding wf_root_def by simp

lemma cwd_invariant:
  assumes "wf_root r" "wf_fs fs" "browsing (scan_steps gs sched r fs) (State_init r) k b"
  shows "cwd b = r \<or> (cwd b \<in> exists (state_at (scan_steps gs sched r fs) (State_init r) k)
           \<and> is_dir (state_at (scan_steps gs sched r fs) (State_init r) k) (cwd b) = Some True)"
  using assms(3)
proof (induction rule: browsing.induct)
  case start
  then show ?case using assms(1) by (simp add: Browser_init_def wf_root_abspath)
next
  case (scan k b)
  then show ?case using grows_state_at [OF assms(1,2), of k "Suc k" gs sched r "cwd b"] by auto
next
  case (drawn k b k')
  have "cwd (draw (state_at (scan_steps gs sched r fs) (State_init r) k)
              (state_at (scan_steps gs sched r fs) (State_init r) k') b) = cwd b"
    by (simp add: draw_def Let_def)
  then show ?case using drawn grows_state_at [OF assms(1,2) drawn(2), of gs sched r "cwd b"] by auto
next
  case (key k b k' ch b')
  let ?st = "state_at (scan_steps gs sched r fs) (State_init r) k"
  let ?st' = "state_at (scan_steps gs sched r fs) (State_init r) k'"
  note g = grows_state_at [OF assms(1,2) key(2), of gs sched r]
  have t: "tidy (dir_paths r fs) (file_paths r fs) ?st" by (rule tidy_state_at)
  from handle_key_cwd [OF key(4)] consider (same) "cwd b' = cwd b"
    | (down) "b' = descend ?st ?st' b" "cwd b' \<noteq> cwd b" | (up) "b' = ascend ?st b" "cwd b' \<noteq> cwd b"
    by blast
  then show ?case
  proof cases
    case same
    then show ?thesis using key.IH g [of "cwd b"] by auto
  next
    case down
    then show ?thesis using descend_cwd [of ?st ?st' b] g [of "cwd b'"] by auto
  next
    case up
    with ascend_cwd [of ?st b] have p: "cwd b' = dirname (cwd b)" "dirname (cwd b) \<in> exists ?st"
      by auto
    show ?thesis
    proof (cases "cwd b = r")
      case True
      then show ?thesis using dirname_root_recorded [OF assms(1,2) t] p by simp
    next
      case False
      with key.IH have "is_dir ?st (cwd b) = Some True" by simp
      then have "is_dir ?st (dirname (cwd b)) = Some True"
        using False p(2) by (intro parent_is_directory [OF assms(1,2) t])
      then show ?thesis using p g [of "cwd b'"] by auto
    qed
  qed
qed

section \<open>An example tree\<close>

text \<open>
  The root \<^verbatim>\<open>/data\<close> holds the file \<^verbatim>\<open>r\<close> (400 bytes) and the directory \<^verbatim>\<open>A\<close> with the
  files \<^verbatim>\<open>a1\<close> (100), \<^verbatim>\<open>a2\<close> (200) and \<^verbatim>\<open>a3\<close> (300). The workers finish in the reverse
  order of submission.
\<close>

definition example_fs :: fsnode where
  "example_fs = Dir [(''r'', File), (''A'', Dir [(''a1'', File), (''a2'', File), (''a3'', File)])]"

definition example_getsize :: "string \<Rightarrow> int option" where
  "example_getsize p =
     (if p = ''/data/r'' then Some 400
      else if p = ''/data/A/a1'' then Some 100
      else if p = ''/data/A/a2'' then Some 200
      else if p = ''/data/A/a3'' then Some 300
      else None)"

definition example_steps :: "step list" where
  "example_steps = scan_steps example_getsize rev ''/data'' example_fs"

lemma example_wf: "wf_root ''/data''" "wf_fs example_fs"
  by (simp_all add: wf_root_def isabs_def abspath_data example_fs_def valid_name_def sep_def)

lemma example_walk:
  "os_walk ''/data'' example_fs =
     [(''/data'', [''A''], [''r'']), (''/data/A'', [], [''a1'', ''a2'', ''a3''])]"
  by (simp add: example_fs_def dirnames_def filenames_def is_file_def join_path_def sep_def)

lemma example_steps_eq:
  "example_steps =
     [PreEnter ''/data'', PreChild ''/data'' ''A'', PreFiles 1, PreEnter ''/data/A'', PreFiles 3,
      LiveEnter ''/data'' [''A''], LiveFile ''/data'' ''r'', LiveEnter ''/data/A'' [],
      LiveFile ''/data/A'' ''a1'', LiveFile ''/data/A'' ''a2'', LiveFile ''/data/A'' ''a3'',
      Bubble ''/data/A/a3'' 300, Bubble ''/data/A/a2'' 200, Bubble ''/data/A/a1'' 100,
      Bubble ''/data/r'' 400, Finish]"
  by (simp add: example_steps_def scan_steps_def pre_count_steps_def live_steps_def drain_steps_def
      submitted_def example_walk live_file_steps_def file_size_def example_getsize_def join_path_def
      sep_def)

lemma live_dir_child_children [simp]:
  "children_of (live_dir_child d n st) p =
     (if p = d \<and> join_path d n \<notin> set (children_of st d) then children_of st d @ [join_path d n]
      else children_of st p)"
  by (simp add: live_dir_child_def Let_def)

lemma live_enter_children_Nil [simp]:
  "children_of (live_enter d [] st) p = children_of st p"
  by (simp add: live_enter_def Let_def)

lemma live_enter_children_one [simp]:
  "children_of (live_enter d [n] st) p =
     (if p = d \<and> join_path d n \<notin> set (children_of st d) then children_of st d @ [join_path d n]
      else children_of st p)"
  by (simp add: live_enter_def Let_def)

text \<open>The state after the pre-count and the first two blocks of the live pass.\<close>

definition example_mid :: state where
  "example_mid = state_at example_steps (State_init ''/data'') 7"

lemma example_mid_fields:
  "children_of example_mid ''/data'' = [''/data/A'', ''/data/r'']"
  "exists example_mid = {''/data/r'', ''/data'', ''/data/A''}"
  "is_dir example_mid ''/data/A'' = Some True"
  "is_dir example_mid ''/data/r'' = Some False"
  "size_map example_mid = Map.empty"
  by (simp_all add: example_mid_def state_at_def example_steps_eq run_def join_path_def sep_def
      insert_commute)

lemma example_mid_sorted:
  "sorted_children example_mid 0 ''/data'' = [''/data/A'', ''/data/r'']"
  by (simp add: sorted_children_def example_mid_fields key_size_def is_dir_get_def sort_size_def
      less_eq_prod_def less_prod_def)

section \<open>The browser beside the scanner\<close>

lemma browsing_scan_to:
  assumes "browsing S st0 k b" and "k \<le> k'" and "k' \<le> length S"
  shows "browsing S st0 k' b"
  using assms(2,3)
proof (induction k' rule: dec_induct)
  case base
  then show ?case using assms(1) by simp
next
  case (step n)
  then show ?case by (auto intro: browsing.scan)
qed

text \<open>
  C10. While the browser runs beside a scan of a tree, \<^verbatim>\<open>cwd\<close> is the scan root or a path
  that is in \<^verbatim>\<open>exists\<close> and marked as a directory in the state the scanner has reached,
  and it is one of the directories of the walk. Descending moves \<^verbatim>\<open>cwd\<close> only to a
  child of \<^verbatim>\<open>cwd\<close> that is in \<^verbatim>\<open>exists\<close> and marked as a directory; ascending moves it
  only to its parent, and only when the parent is in \<^verbatim>\<open>exists\<close>.
\<close>

theorem cwd_stays_in_scanned_tree:
  assumes "wf_root r" and "wf_fs fs"
    and "browsing (scan_steps getsize sched r fs) (State_init r) k b"
  shows "(cwd b = r
          \<or> cwd b \<in> exists (state_at (scan_steps getsize sched r fs) (State_init r) k)
            \<and> is_dir (state_at (scan_steps getsize sched r fs) (State_init r) k) (cwd b) = Some True)
       \<and> (cwd b = r \<or> cwd b \<in> dir_paths r fs)
       \<and> (cwd (descend st st' b) = cwd b
          \<or> cwd (descend st st' b) \<in> set (children_of st (cwd b))
            \<and> cwd (descend st st' b) \<in> exists st
            \<and> is_dir st' (cwd (descend st st' b)) = Some True)
       \<and> (cwd (ascend st b) = cwd b
          \<or> cwd (ascend st b) = dirname (cwd b) \<and> dirname (cwd b) \<in> exists st)"
proof -
  note inv = cwd_invariant [OF assms]
  have "tidy (dir_paths r fs) (file_paths r fs) (state_at (scan_steps getsize sched r fs) (State_init r) k)"
    by (rule tidy_state_at)
  with inv have "cwd b = r \<or> cwd b \<in> dir_paths r fs" by (auto simp: tidy_def)
  with inv descend_cwd [of st st' b] ascend_cwd [of st b] show ?thesis by blast
qed

text \<open>In the example the browser waits for seven blocks of the scanner and descends
  into \<^verbatim>\<open>A\<close>.\<close>

theorem cwd_stays_in_scanned_tree_witness:
  "browsing example_steps (State_init ''/data'') 7
     \<lparr>cwd = ''/data/A'', pos = 0, sort_mode = 0, spinner_idx = 0\<rparr>
   \<and> ''/data/A'' \<in> exists (state_at example_steps (State_init ''/data'') 7)
   \<and> is_dir (state_at example_steps (State_init ''/data'') 7) ''/data/A'' = Some True
   \<and> ''/data/A'' \<in> dir_paths ''/data'' example_fs"
proof -
  have len: "length example_steps = 16" by (simp add: example_steps_eq)
  have "browsing example_steps (State_init ''/data'') 0 (Browser_init (State_init ''/data''))"
    by (rule browsing.start)
  then have b7: "browsing example_steps (State_init ''/data'') 7 (Browser_init (State_init ''/data''))"
    by (rule browsing_scan_to) (simp_all add: len)
  have k: "handle_key example_mid example_mid KEY_RIGHT (Browser_init (State_init ''/data''))
             = Some \<lparr>cwd = ''/data/A'', pos = 0, sort_mode = 0, spinner_idx = 0\<rparr>"
    by (simp add: handle_key_def key_codes descend_def Browser_init_def abspath_data
        example_mid_sorted clamp_pos_def is_dir_get_def example_mid_fields)
  have b: "browsing example_steps (State_init ''/data'') 7
             \<lparr>cwd = ''/data/A'', pos = 0, sort_mode = 0, spinner_idx = 0\<rparr>"
    by (rule browsing.key [OF b7 order_refl _ k [unfolded example_mid_def]]) (simp add: len)
  show ?thesis
    using cwd_stays_in_scanned_tree [OF example_wf b [unfolded example_steps_def]] b
    by (simp add: example_steps_def)
qed








section \<open>Progress\<close>

text \<open>What a block adds to the total (\<^verbatim>\<open>total_files + total_dirs\<close>) and to the number
  seen (\<^verbatim>\<open>seen_files + seen_dirs\<close>).\<close>

fun tot_inc :: "step \<Rightarrow> int" where
  "tot_inc (PreEnter dp) = 1"
| "tot_inc (PreFiles n) = int n"
| "tot_inc s = 0"

fun seen_inc :: "step \<Rightarrow> int" where
  "seen_inc (LiveEnter dp dns) = 1"
| "seen_inc (Bubble p sz) = 1"
| "seen_inc s = 0"






lemma inc_nonneg: "0 \<le> tot_inc s" "0 \<le> seen_inc s"
  by (cases s; simp)+

lemma sum_map_nonneg: "(\<And>x. 0 \<le> f x) \<Longrightarrow> (0::int) \<le> sum_list (map f xs)"
  by (induction xs) auto

lemma sum_inc_nonneg: "0 \<le> sum_list (map tot_inc T)" "0 \<le> sum_list (map seen_inc T)"
  by (simp_all add: sum_map_nonneg inc_nonneg)






















end
